theory Spec2Isabelle
  imports Main "HOL-Library.Sublist"
begin

section \<open>PII types and catalog columns\<close>

text \<open>
  The PII category tags imported by \<^verbatim>\<open>scanner.py\<close> from the \<^verbatim>\<open>piicatcher\<close> package.
  A detector returns a fresh instance \<^verbatim>\<open>pii_type()\<close>; instances carry no payload and are
  compared by category, so one constructor per category models them.
\<close>

datatype pii_type =
  Person | Email | BirthDate | Gender | Nationality | Address | ZipCode | UserName
  | Password | SSN | PoBox | CreditCard | Phone | KTP

text \<open>
  \<^verbatim>\<open>CatColumn\<close> belongs to the catalog library; the scanners read its \<^verbatim>\<open>name\<close> and its
  \<^verbatim>\<open>fqdn\<close> only.  Text is a list of Isabelle characters, read as code points below 256.
\<close>

record column =
  name :: string
  fqdn :: string

section \<open>The fragment of Python's \<^verbatim>\<open>re\<close> module used by the name patterns\<close>

datatype re_ast =
  Lit char
  | Dot
  | Bol
  | Eol
  | Eps
  | Seq re_ast re_ast
  | Alt re_ast re_ast
  | Star re_ast

definition newline :: char where
  "newline = CHR 0x0A"

text \<open>
  Case folding of \<^verbatim>\<open>re.IGNORECASE\<close> on code points below 256: the ASCII capitals and the
  Latin-1 capitals (all of 0xC0..0xDE but the multiplication sign 0xD7) go to the letter
  32 places further.
\<close>

definition lower :: "char \<Rightarrow> char" where
  "lower c =
     (let n = (of_char c :: nat)
      in if (65 \<le> n \<and> n \<le> 90) \<or> (192 \<le> n \<and> n \<le> 222 \<and> n \<noteq> 215)
         then char_of (n + 32) else c)"

subsection \<open>Compiling a pattern\<close>

text \<open>
  One pass over the pattern text with a stack of open groups.  A frame holds the finished
  alternatives of its group and the atoms of the alternative being read, both newest first.
  Only the syntax the source's patterns use is accepted: literals, \<^verbatim>\<open>.\<close>, \<^verbatim>\<open>*\<close>, \<^verbatim>\<open>|\<close>,
  groups, \<^verbatim>\<open>^\<close> and \<^verbatim>\<open>$\<close>; anything else is a compile error (\<open>None\<close>).
\<close>

type_synonym frame = "re_ast list \<times> re_ast list"

fun seq_of :: "re_ast list \<Rightarrow> re_ast" where
  "seq_of [] = Eps"
| "seq_of [r] = r"
| "seq_of (r # rs) = Seq r (seq_of rs)"

fun alt_of :: "re_ast list \<Rightarrow> re_ast" where
  "alt_of [] = Eps"
| "alt_of [r] = r"
| "alt_of (r # rs) = Alt r (alt_of rs)"

definition close_frame :: "frame \<Rightarrow> re_ast" where
  "close_frame f = alt_of (rev (seq_of (rev (snd f)) # fst f))"

definition unsupported :: "char \<Rightarrow> bool" where
  "unsupported c = (c \<in> set ''+?[]{}'' \<or> c = CHR 0x5C)"

fun parse :: "string \<Rightarrow> frame list \<Rightarrow> re_ast option" where
  "parse [] [f] = Some (close_frame f)"
| "parse [] fs = None"
| "parse (c # cs) [] = None"
| "parse (c # cs) ((alts, cur) # fs) =
     (if c = CHR ''('' then parse cs (([], []) # (alts, cur) # fs)
      else if c = CHR '')'' then
        (case fs of
           [] \<Rightarrow> None
         | (alts', cur') # fs' \<Rightarrow> parse cs ((alts', close_frame (alts, cur) # cur') # fs'))
      else if c = CHR ''|'' then parse cs ((seq_of (rev cur) # alts, []) # fs)
      else if c = CHR ''*'' then
        (case cur of
           [] \<Rightarrow> None
         | a # cur' \<Rightarrow> parse cs ((alts, Star a # cur') # fs))
      else if c = CHR ''.'' then parse cs ((alts, Dot # cur) # fs)
      else if c = CHR ''^'' then parse cs ((alts, Bol # cur) # fs)
      else if c = CHR ''$'' then parse cs ((alts, Eol # cur) # fs)
      else if unsupported c then None
      else parse cs ((alts, Lit c # cur) # fs))"

record pattern =
  ast :: re_ast
  ignorecase :: bool

text \<open>
  \<^verbatim>\<open>re.compile(text, re.IGNORECASE)\<close>.  A pattern that does not compile would stop the
  module at import; every pattern of the table compiles (\<open>regex_compiles\<close> below), so
  the fallback, a pattern that matches nothing, is never used.
\<close>

definition never :: re_ast where
  "never = Seq Dot Bol"

definition re_compile :: "string \<Rightarrow> bool \<Rightarrow> pattern" where
  "re_compile text ic =
     \<lparr>ast = (case parse text [([], [])] of Some r \<Rightarrow> r | None \<Rightarrow> never), ignorecase = ic\<rparr>"

subsection \<open>Matching\<close>

text \<open>
  A matching state is the number of characters consumed and the text still ahead.
  \<open>ends ic r st\<close> lists the states in which a match of \<open>r\<close> begun in \<open>st\<close> can end.
  Without \<^verbatim>\<open>re.DOTALL\<close> the dot refuses a newline; without \<^verbatim>\<open>re.MULTILINE\<close>, \<^verbatim>\<open>^\<close> holds
  at the start of the text only and \<^verbatim>\<open>$\<close> at its end or just before a final newline.
  A repetition goes round again only after an iteration that consumed something.
\<close>

fun step_char :: "(char \<Rightarrow> bool) \<Rightarrow> nat \<times> string \<Rightarrow> (nat \<times> string) list" where
  "step_char P (n, []) = []"
| "step_char P (n, c # cs) = (if P c then [(Suc n, cs)] else [])"

fun ends :: "bool \<Rightarrow> re_ast \<Rightarrow> nat \<times> string \<Rightarrow> (nat \<times> string) list" where
  "ends ic (Lit a) st = step_char (\<lambda>c. if ic then lower c = lower a else c = a) st"
| "ends ic Dot st = step_char (\<lambda>c. c \<noteq> newline) st"
| "ends ic Bol st = (if fst st = 0 then [st] else [])"
| "ends ic Eol st = (if snd st = [] \<or> snd st = [newline] then [st] else [])"
| "ends ic Eps st = [st]"
| "ends ic (Seq r1 r2) st = concat (map (ends ic r2) (ends ic r1 st))"
| "ends ic (Alt r1 r2) st = ends ic r1 st @ ends ic r2 st"
| "ends ic (Star r) st =
     st # concat (map (ends ic (Star r))
                      (filter (\<lambda>st'. length (snd st') < length (snd st)) (ends ic r st)))"

text \<open>
  The equation of the repetition is used by hand in proofs: it rewrites again whatever it
  has produced.
\<close>

declare ends.simps(8) [simp del]

text \<open>\<^verbatim>\<open>ex.match(text) is not None\<close>: some match of the pattern begins at position 0.\<close>

definition re_match :: "pattern \<Rightarrow> string \<Rightarrow> bool" where
  "re_match ex text = (ends (ignorecase ex) (ast ex) (0, text) \<noteq> [])"

section \<open>\<^verbatim>\<open>ColumnNameRegexDetector\<close>\<close>

text \<open>
  The class attribute \<^verbatim>\<open>regex\<close>: a dictionary with fourteen distinct keys, iterated by
  \<^verbatim>\<open>items()\<close> in insertion order, hence an association list in the order of the source.
\<close>

definition regex :: "(pii_type \<times> pattern) list" where
  "regex =
    [(Person, re_compile
        (''^.*(firstname|fname|lastname|lname|'' @
         ''fullname|maidenname|_name|'' @
         ''nickname|name_suffix|name|person|nama|nama_lengkap|nama_panjang).*$'') True),
     (Email, re_compile ''^.*(email|e-mail|mail).*$'' True),
     (BirthDate, re_compile
        (''^.*(date_of_birth|dateofbirth|dob|'' @
         ''birthday|date_of_death|dateofdeath|birthdate|tanggal_lahir).*$'') True),
     (Gender, re_compile ''^.*(gender|jenis_kelamin).*$'' True),
     (Nationality, re_compile ''^.*(nationality).*$'' True),
     (Address, re_compile
        (''^.*(address|city|state|county|country|zone|borough|'' @
         ''alamat|provinsi|kota|kabupaten|kecamatan|kelurahan|desa|nomor_rumah).*$'') True),
     (ZipCode, re_compile ''^.*(zipcode|zip_code|postal|postal_code|zip|kode_pos|pos).*$'' True),
     (UserName, re_compile ''^.*user(id|name|).*$'' True),
     (Password, re_compile ''^.*pass.*$'' True),
     (SSN, re_compile
        (''^.*(ssn|social_number|social_security|'' @
         ''social_security_number|social_security_no).*$'') True),
     (PoBox, re_compile ''^.*(po_box|pobox).*$'' True),
     (CreditCard, re_compile
        (''^.*(credit_card|cc_number|cc_num|creditcard|'' @
         ''credit_card_num|creditcardnumber|kartu_kredit|nomor_rekening|rekening).*$'') True),
     (Phone, re_compile
        (''^.*(phone|phone_number|phone_no|phone_num|'' @
         ''telephone|telephone_num|telephone_no|telp|nomor_telepon|nomor_handphone|'' @
         ''handphone|telepon|no_telepon|no_handphone).*$'') True),
     (KTP, re_compile
        (''^.*(ktp|ktp_name|ktp_number|nama_ktp|'' @
         ''nomor_ktp|ktp_nama|ktp_nomor|ktp_no).*$'') True)]"

text \<open>
  \<^verbatim>\<open>detect\<close>: the \<^verbatim>\<open>for\<close> loop over the table, returning at the first pattern that
  matches \<^verbatim>\<open>column.name\<close> and \<^verbatim>\<open>None\<close> when the table is exhausted.
\<close>

fun detect_items :: "(pii_type \<times> pattern) list \<Rightarrow> column \<Rightarrow> pii_type option" where
  "detect_items [] col = None"
| "detect_items ((pii, ex) # rest) col =
     (if re_match ex (name col) then Some pii else detect_items rest col)"

definition ColumnNameRegexDetector_detect :: "column \<Rightarrow> pii_type option" where
  "ColumnNameRegexDetector_detect col = detect_items regex col"

section \<open>Python values, exceptions and the collaborators of the scan drivers\<close>

text \<open>
  A sampled cell value: absent (\<^verbatim>\<open>None\<close>), text, or a number or truth value that a
  producer hands over uncoerced.  \<open>str\<close> is Python's \<^verbatim>\<open>str()\<close> on these values.
\<close>

datatype pyval = PyNone | PyStr string | PyInt int | PyBool bool

fun digits :: "nat \<Rightarrow> string" where
  "digits n =
     (if n < 10 then [char_of (48 + n)] else digits (n div 10) @ [char_of (48 + n mod 10)])"

fun str :: "pyval \<Rightarrow> string" where
  "str PyNone = ''None''"
| "str (PyStr s) = s"
| "str (PyInt i) = (if i < 0 then ''-'' @ digits (nat (- i)) else digits (nat i))"
| "str (PyBool b) = (if b then ''True'' else ''False'')"

datatype pyexc = PyExc string

text \<open>
  The catalog is an object of the catalog library.  The drivers touch it through
  \<^verbatim>\<open>set_column_pii_type\<close> only, so its state is the list of calls it has carried out,
  oldest first, each a triple of column, PII type and plugin name.  Whether a call raises is
  the catalog's own affair: \<open>fault\<close> decides it from the calls carried out so far and the
  call at hand.  A call that raises records nothing.
\<close>

type_synonym pii_write = "column \<times> pii_type \<times> string"

record catalog =
  writes :: "pii_write list"
  fault :: "pii_write list \<Rightarrow> pii_write \<Rightarrow> pyexc option"

definition set_column_pii_type ::
  "catalog \<Rightarrow> column \<Rightarrow> pii_type \<Rightarrow> string \<Rightarrow> pyexc + catalog" where
  "set_column_pii_type cat col pii plugin =
     (case fault cat (writes cat) (col, pii, plugin) of
        Some e \<Rightarrow> Inl e
      | None \<Rightarrow> Inr (cat\<lparr>writes := writes cat @ [(col, pii, plugin)]\<rparr>))"

text \<open>
  A detector has a \<^verbatim>\<open>name\<close> and a \<^verbatim>\<open>detect\<close> method, which returns a PII type or
  \<^verbatim>\<open>None\<close>, or raises.  Detectors are stateless, so the method is a function.
\<close>

record metadata_detector =
  md_name :: string
  md_detect :: "column \<Rightarrow> pyexc + pii_type option"

record datum_detector =
  dd_name :: string
  dd_detect :: "column \<Rightarrow> pyval \<Rightarrow> pyexc + pii_type option"

text \<open>
  What a scan can be observed to do: the catalog it was given, the three log streams of the
  module (\<^verbatim>\<open>LOGGER\<close>, \<^verbatim>\<open>scan_logger\<close>, \<^verbatim>\<open>data_logger\<close>), and a trace of the calls made to
  \<^verbatim>\<open>detect\<close> methods, kept for counting them.
\<close>

datatype logger_record =
  ScanningColumn string
  | ColumnHas string pii_type
  | ColumnsScanned nat nat

datatype scan_record = DeepScan string pii_type

datatype data_record = DeepScanData string pyval pii_type

datatype detect_call =
  MetadataCall string column
  | DatumCall string column pyval

record world =
  the_catalog :: catalog
  detect_calls :: "detect_call list"
  LOGGER :: "logger_record list"
  scan_logger :: "scan_record list"
  data_logger :: "data_record list"

datatype outcome = Returned world | Raised pyexc world

type_synonym cat_schema = string
type_synonym cat_table = string

text \<open>\<^verbatim>\<open>tqdm(iterable, total=...)\<close> draws a progress bar and yields the items unchanged.\<close>

definition tqdm :: "'a list \<Rightarrow> nat \<Rightarrow> 'a list" where
  "tqdm iterable total_items = iterable"

section \<open>\<^verbatim>\<open>metadata_scan\<close>\<close>

text \<open>
  The inner \<^verbatim>\<open>for detector in detectors\<close> with its \<^verbatim>\<open>break\<close>, threading \<^verbatim>\<open>set_number\<close>.
  The counter is incremented before the catalog is called, as in the source.
\<close>

fun metadata_detectors ::
  "metadata_detector list \<Rightarrow> column \<Rightarrow> nat \<times> world \<Rightarrow> pyexc \<times> world + nat \<times> world" where
  "metadata_detectors [] col (set_number, w) = Inr (set_number, w)"
| "metadata_detectors (detector # rest) col (set_number, w) =
     (let w1 = w\<lparr>detect_calls := detect_calls w @ [MetadataCall (md_name detector) col]\<rparr>
      in case md_detect detector col of
           Inl e \<Rightarrow> Inl (e, w1)
         | Inr None \<Rightarrow> metadata_detectors rest col (set_number, w1)
         | Inr (Some type) \<Rightarrow>
             (let set_number = Suc set_number
              in case set_column_pii_type (the_catalog w1) col type (md_name detector) of
                   Inl e \<Rightarrow> Inl (e, w1)
                 | Inr cat \<Rightarrow> Inr (set_number, w1\<lparr>the_catalog := cat\<rparr>)))"

text \<open>The outer loop over the work enumeration, threading both counters.\<close>

fun metadata_columns ::
  "metadata_detector list \<Rightarrow> (cat_schema \<times> cat_table \<times> column) list \<Rightarrow> nat \<times> nat \<times> world
     \<Rightarrow> pyexc \<times> world + nat \<times> nat \<times> world" where
  "metadata_columns detectors [] (counter, set_number, w) = Inr (counter, set_number, w)"
| "metadata_columns detectors ((schema, table, col) # rest) (counter, set_number, w) =
     (let counter = Suc counter;
          w1 = w\<lparr>LOGGER := LOGGER w @ [ScanningColumn (fqdn col)]\<rparr>
      in case metadata_detectors detectors col (set_number, w1) of
           Inl ew \<Rightarrow> Inl ew
         | Inr (set_number, w2) \<Rightarrow> metadata_columns detectors rest (counter, set_number, w2))"

text \<open>
  The catalog argument of the source is the catalog of the world the scan starts in.
  The sizing enumeration is drained for the progress total and has no other use.
\<close>

definition metadata_scan ::
  "world \<Rightarrow> metadata_detector list \<Rightarrow> (cat_schema \<times> cat_table \<times> column) list
     \<Rightarrow> (cat_schema \<times> cat_table \<times> column) list \<Rightarrow> outcome" where
  "metadata_scan w detectors work_generator generator =
     (let total_columns = length (map (\<lambda>(s, t, c). c) work_generator)
      in case metadata_columns detectors (tqdm generator total_columns) (0, 0, w) of
           Inl (e, w') \<Rightarrow> Raised e w'
         | Inr (counter, set_number, w') \<Rightarrow>
             Returned (w'\<lparr>LOGGER := LOGGER w' @ [ColumnsScanned counter set_number]\<rparr>))"

section \<open>\<^verbatim>\<open>DatumRegexDetector\<close>\<close>

text \<open>
  The recognizers come from the third-party package imported as \<^verbatim>\<open>CommonRegex\<close>: each
  takes a text and returns the list of matches it finds in it, and the detector tests
  that list for truth, which is non-emptiness.  They are a parameter of the model.
\<close>

record common_regex =
  phones :: "string \<Rightarrow> string list"
  emails :: "string \<Rightarrow> string list"
  credit_cards :: "string \<Rightarrow> string list"
  street_addresses :: "string \<Rightarrow> string list"
  ssn_numbers :: "string \<Rightarrow> string list"
  zip_codes :: "string \<Rightarrow> string list"
  po_boxes :: "string \<Rightarrow> string list"
  ktp :: "string \<Rightarrow> string list"

definition DatumRegexDetector_detect ::
  "common_regex \<Rightarrow> column \<Rightarrow> pyval \<Rightarrow> pii_type option" where
  "DatumRegexDetector_detect CommonRegex col datum =
     (let data = str datum
      in if phones CommonRegex data \<noteq> [] then Some Phone
         else if emails CommonRegex data \<noteq> [] then Some Email
         else if credit_cards CommonRegex data \<noteq> [] then Some CreditCard
         else if street_addresses CommonRegex data \<noteq> [] then Some Address
         else if ssn_numbers CommonRegex data \<noteq> [] then Some SSN
         else if zip_codes CommonRegex data \<noteq> [] then Some ZipCode
         else if po_boxes CommonRegex data \<noteq> [] then Some PoBox
         else if ktp CommonRegex data \<noteq> [] then Some KTP
         else None)"

section \<open>\<^verbatim>\<open>data_scan\<close>\<close>

fun datum_detectors ::
  "datum_detector list \<Rightarrow> column \<Rightarrow> pyval \<Rightarrow> nat \<times> world \<Rightarrow> pyexc \<times> world + nat \<times> world" where
  "datum_detectors [] col val (set_number, w) = Inr (set_number, w)"
| "datum_detectors (detector # rest) col val (set_number, w) =
     (let w1 = w\<lparr>detect_calls := detect_calls w @ [DatumCall (dd_name detector) col val]\<rparr>
      in case dd_detect detector col val of
           Inl e \<Rightarrow> Inl (e, w1)
         | Inr None \<Rightarrow> datum_detectors rest col val (set_number, w1)
         | Inr (Some type) \<Rightarrow>
             (let set_number = Suc set_number
              in case set_column_pii_type (the_catalog w1) col type (dd_name detector) of
                   Inl e \<Rightarrow> Inl (e, w1)
                 | Inr cat \<Rightarrow>
                     Inr (set_number,
                          w1\<lparr>the_catalog := cat,
                             LOGGER := LOGGER w1 @ [ColumnHas (fqdn col) type],
                             scan_logger := scan_logger w1 @ [DeepScan (fqdn col) type],
                             data_logger :=
                               data_logger w1 @ [DeepScanData (fqdn col) val type]\<rparr>)))"

fun datum_items ::
  "datum_detector list \<Rightarrow> (cat_schema \<times> cat_table \<times> column \<times> pyval) list
     \<Rightarrow> nat \<times> nat \<times> world \<Rightarrow> pyexc \<times> world + nat \<times> nat \<times> world" where
  "datum_items detectors [] (counter, set_number, w) = Inr (counter, set_number, w)"
| "datum_items detectors ((schema, table, col, val) # rest) (counter, set_number, w) =
     (let counter = Suc counter;
          w1 = w\<lparr>LOGGER := LOGGER w @ [ScanningColumn (fqdn col)]\<rparr>
      in if val \<noteq> PyNone then
           (case datum_detectors detectors col val (set_number, w1) of
              Inl ew \<Rightarrow> Inl ew
            | Inr (set_number, w2) \<Rightarrow> datum_items detectors rest (counter, set_number, w2))
         else datum_items detectors rest (counter, set_number, w1))"

text \<open>
  \<^verbatim>\<open>_filter_text_columns\<close> lives in a module that is not part of the scanner; it is a
  parameter here.  It and \<^verbatim>\<open>sample_size\<close> feed the progress total only.
\<close>

definition data_scan ::
  "(column list \<Rightarrow> column list) \<Rightarrow> world \<Rightarrow> datum_detector list
     \<Rightarrow> (cat_schema \<times> cat_table \<times> column) list
     \<Rightarrow> (cat_schema \<times> cat_table \<times> column \<times> pyval) list \<Rightarrow> nat \<Rightarrow> outcome" where
  "data_scan filter_text_columns w detectors work_generator generator sample_size =
     (let total_columns = filter_text_columns (map (\<lambda>(s, t, c). c) work_generator);
          total_work = length total_columns * sample_size
      in case datum_items detectors (tqdm generator total_work) (0, 0, w) of
           Inl (e, w') \<Rightarrow> Raised e w'
         | Inr (counter, set_number, w') \<Rightarrow>
             Returned (w'\<lparr>LOGGER := LOGGER w' @ [ColumnsScanned counter set_number]\<rparr>))"

section \<open>The recognizers of the \<^verbatim>\<open>CommonRegex\<close> package\<close>

text \<open>
  Modelled from the spec: the recognizers \<^verbatim>\<open>phones\<close>, \<^verbatim>\<open>emails\<close>, \<^verbatim>\<open>credit_cards\<close>,
  \<^verbatim>\<open>street_addresses\<close>, \<^verbatim>\<open>ssn_numbers\<close>, \<^verbatim>\<open>zip_codes\<close>, \<^verbatim>\<open>po_boxes\<close> and \<^verbatim>\<open>ktp\<close> of
  the package \<^verbatim>\<open>crim\<close>, imported as \<^verbatim>\<open>CommonRegex\<close>, which is missing from the source tree.  The
  specification calls them regular-expression recognizers for a phone number, an email
  address, a credit-card number, a street address, an SSN-shaped number, a ZIP code, a PO
  box and a national-ID number, each of which matches its pattern anywhere in the text,
  not anchored.  So a recognizer is given by what its pattern matches (a set of strings,
  here a predicate), and it reports the substrings of the text that the pattern matches,
  wherever they lie.  What the eight patterns match is left open.
\<close>

record patterns =
  phone :: "string \<Rightarrow> bool"
  email :: "string \<Rightarrow> bool"
  credit_card :: "string \<Rightarrow> bool"
  street_address :: "string \<Rightarrow> bool"
  ssn_number :: "string \<Rightarrow> bool"
  zip_code :: "string \<Rightarrow> bool"
  po_box :: "string \<Rightarrow> bool"
  ktp_number :: "string \<Rightarrow> bool"

definition substrings :: "string \<Rightarrow> string list" where
  "substrings s = concat (map prefixes (suffixes s))"

definition matches_in :: "(string \<Rightarrow> bool) \<Rightarrow> string \<Rightarrow> string list" where
  "matches_in pat s = filter pat (substrings s)"

definition crim :: "patterns \<Rightarrow> common_regex" where
  "crim p =
     \<lparr>phones = matches_in (phone p),
      emails = matches_in (email p),
      credit_cards = matches_in (credit_card p),
      street_addresses = matches_in (street_address p),
      ssn_numbers = matches_in (ssn_number p),
      zip_codes = matches_in (zip_code p),
      po_boxes = matches_in (po_box p),
      ktp = matches_in (ktp_number p)\<rparr>"

section \<open>Notions used to state the properties\<close>

subsection \<open>Of patterns and names\<close>

text \<open>Syntactic anchoring: every alternative begins with \<^verbatim>\<open>^\<close>, or ends with \<^verbatim>\<open>$\<close>.\<close>

fun anchored_start :: "re_ast \<Rightarrow> bool" where
  "anchored_start Bol = True"
| "anchored_start (Seq r1 r2) = anchored_start r1"
| "anchored_start (Alt r1 r2) = (anchored_start r1 \<and> anchored_start r2)"
| "anchored_start r = False"

fun anchored_end :: "re_ast \<Rightarrow> bool" where
  "anchored_end Eol = True"
| "anchored_end (Seq r1 r2) = anchored_end r2"
| "anchored_end (Alt r1 r2) = (anchored_end r1 \<and> anchored_end r2)"
| "anchored_end r = False"

definition fold_case :: "nat \<times> string \<Rightarrow> nat \<times> string" where
  "fold_case st = (fst st, map lower (snd st))"

text \<open>\<open>contains_ci tok s\<close>: the text \<open>s\<close> has \<open>tok\<close> as a substring, up to the case of letters.\<close>

fun contains_ci :: "string \<Rightarrow> string \<Rightarrow> bool" where
  "contains_ci tok [] = (tok = [])"
| "contains_ci tok (c # cs) =
     (prefix (map lower tok) (map lower (c # cs)) \<or> contains_ci tok cs)"

subsection \<open>Of the value recognizers\<close>

text \<open>The recognizers in the order the specification lists them, each with its PII type.\<close>

definition recognizers :: "common_regex \<Rightarrow> (pii_type \<times> (string \<Rightarrow> string list)) list" where
  "recognizers cr =
     [(Phone, phones cr), (Email, emails cr), (CreditCard, credit_cards cr),
      (Address, street_addresses cr), (SSN, ssn_numbers cr), (ZipCode, zip_codes cr),
      (PoBox, po_boxes cr), (KTP, ktp cr)]"

fun first_recognizer ::
  "(pii_type \<times> (string \<Rightarrow> string list)) list \<Rightarrow> string \<Rightarrow> pii_type option" where
  "first_recognizer [] text = None"
| "first_recognizer ((pii, r) # rest) text =
     (if r text \<noteq> [] then Some pii else first_recognizer rest text)"

subsection \<open>Of the detectors' answers for one work item\<close>

text \<open>
  What each detector of the list answers for a column (and a value), with the detector's
  name.  The drivers ask the detectors one after the other; since detectors are functions,
  all answers can be listed beforehand.
\<close>

type_synonym answer = "pyexc + pii_type option"

definition md_answers :: "metadata_detector list \<Rightarrow> column \<Rightarrow> (string \<times> answer) list" where
  "md_answers detectors col = map (\<lambda>d. (md_name d, md_detect d col)) detectors"

definition dd_answers ::
  "datum_detector list \<Rightarrow> column \<Rightarrow> pyval \<Rightarrow> (string \<times> answer) list" where
  "dd_answers detectors col val = map (\<lambda>d. (dd_name d, dd_detect d col val)) detectors"

text \<open>A detector passes when it returns \<^verbatim>\<open>None\<close>.\<close>

definition passes :: "string \<times> answer \<Rightarrow> bool" where
  "passes na = (snd na = Inr None)"

text \<open>The detectors that get called: those that pass, and the first one that does not.\<close>

definition tried :: "(string \<times> answer) list \<Rightarrow> string list" where
  "tried as = map fst (takeWhile passes as @ take 1 (dropWhile passes as))"

text \<open>The answer of the first detector that does not pass decides the work item.\<close>

datatype verdict = NoMatch | Match string pii_type | Fault pyexc

definition verdict_of :: "(string \<times> answer) list \<Rightarrow> verdict" where
  "verdict_of as =
     (case dropWhile passes as of
        [] \<Rightarrow> NoMatch
      | (n, a) # rest \<Rightarrow>
          (case a of Inl e \<Rightarrow> Fault e | Inr None \<Rightarrow> NoMatch | Inr (Some t) \<Rightarrow> Match n t))"

text \<open>Some detector of the list matches: it returns a PII type.\<close>

definition matched :: "(string \<times> answer) list \<Rightarrow> bool" where
  "matched as = list_ex (\<lambda>na. case snd na of Inl e \<Rightarrow> False | Inr None \<Rightarrow> False | Inr (Some t) \<Rightarrow> True) as"

subsection \<open>Of a whole work enumeration\<close>

text \<open>
  For a metadata scan: the calls to \<^verbatim>\<open>detect\<close> that the enumeration asks for, the catalog
  writes it asks for (one for each item decided by a match), and its \<^verbatim>\<open>LOGGER.debug\<close>
  lines.
\<close>

definition md_calls ::
  "metadata_detector list \<Rightarrow> (cat_schema \<times> cat_table \<times> column) list \<Rightarrow> detect_call list" where
  "md_calls detectors g =
     concat (map (\<lambda>(s, t, c). map (\<lambda>n. MetadataCall n c) (tried (md_answers detectors c))) g)"

definition md_label :: "metadata_detector list \<Rightarrow> column \<Rightarrow> pii_write list" where
  "md_label detectors c =
     (case verdict_of (md_answers detectors c) of
        Match n ty \<Rightarrow> [(c, ty, n)] | NoMatch \<Rightarrow> [] | Fault e \<Rightarrow> [])"

definition md_labels ::
  "metadata_detector list \<Rightarrow> (cat_schema \<times> cat_table \<times> column) list \<Rightarrow> pii_write list" where
  "md_labels detectors g = concat (map (\<lambda>(s, t, c). md_label detectors c) g)"

definition md_scanning :: "(cat_schema \<times> cat_table \<times> column) list \<Rightarrow> logger_record list" where
  "md_scanning g = map (\<lambda>(s, t, c). ScanningColumn (fqdn c)) g"

text \<open>
  For a data scan: an item whose value is \<^verbatim>\<open>None\<close> asks for no call and no write; any
  other item asks for what its detectors' answers say.  Each write comes with a line on
  \<^verbatim>\<open>LOGGER\<close>, a record on \<^verbatim>\<open>scan_logger\<close> and a record on \<^verbatim>\<open>data_logger\<close>, the last with
  the sampled value.
\<close>

type_synonym datum_item = "cat_schema \<times> cat_table \<times> column \<times> pyval"

definition dd_call :: "datum_detector list \<Rightarrow> column \<Rightarrow> pyval \<Rightarrow> detect_call list" where
  "dd_call detectors c v =
     (if v = PyNone then [] else map (\<lambda>n. DatumCall n c v) (tried (dd_answers detectors c v)))"

definition dd_calls :: "datum_detector list \<Rightarrow> datum_item list \<Rightarrow> detect_call list" where
  "dd_calls detectors g = concat (map (\<lambda>(s, t, c, v). dd_call detectors c v) g)"

definition dd_label :: "datum_detector list \<Rightarrow> column \<Rightarrow> pyval \<Rightarrow> pii_write list" where
  "dd_label detectors c v =
     (if v = PyNone then []
      else case verdict_of (dd_answers detectors c v) of
             Match n ty \<Rightarrow> [(c, ty, n)] | NoMatch \<Rightarrow> [] | Fault e \<Rightarrow> [])"

definition dd_labels :: "datum_detector list \<Rightarrow> datum_item list \<Rightarrow> pii_write list" where
  "dd_labels detectors g = concat (map (\<lambda>(s, t, c, v). dd_label detectors c v) g)"

definition dd_logger :: "datum_detector list \<Rightarrow> datum_item list \<Rightarrow> logger_record list" where
  "dd_logger detectors g =
     concat (map (\<lambda>(s, t, c, v).
        ScanningColumn (fqdn c) # map (\<lambda>(c, ty, n). ColumnHas (fqdn c) ty) (dd_label detectors c v)) g)"

definition dd_scan_records :: "datum_detector list \<Rightarrow> datum_item list \<Rightarrow> scan_record list" where
  "dd_scan_records detectors g =
     concat (map (\<lambda>(s, t, c, v).
        map (\<lambda>(c, ty, n). DeepScan (fqdn c) ty) (dd_label detectors c v)) g)"

definition dd_data_records :: "datum_detector list \<Rightarrow> datum_item list \<Rightarrow> data_record list" where
  "dd_data_records detectors g =
     concat (map (\<lambda>(s, t, c, v).
        map (\<lambda>(c, ty, n). DeepScanData (fqdn c) v ty) (dd_label detectors c v)) g)"

text \<open>A record of the raw-value stream without its value.\<close>

fun strip_value :: "data_record \<Rightarrow> scan_record" where
  "strip_value (DeepScanData c v ty) = DeepScan c ty"

text \<open>
  The number of items that have a value and are matched by some detector, with ``has a
  value'' read as the source reads it (the value is not \<^verbatim>\<open>None\<close>), and as the
  specification words it (the value is neither \<^verbatim>\<open>None\<close> nor the empty text).
\<close>

definition present_matches :: "datum_detector list \<Rightarrow> datum_item list \<Rightarrow> nat" where
  "present_matches detectors g =
     length (filter (\<lambda>(s, t, c, v). v \<noteq> PyNone \<and> matched (dd_answers detectors c v)) g)"

definition empty_or_absent :: "pyval \<Rightarrow> bool" where
  "empty_or_absent v = (v = PyNone \<or> v = PyStr [])"

definition nonempty_matches :: "datum_detector list \<Rightarrow> datum_item list \<Rightarrow> nat" where
  "nonempty_matches detectors g =
     length (filter (\<lambda>(s, t, c, v). \<not> empty_or_absent v \<and> matched (dd_answers detectors c v)) g)"

text \<open>
  The exception that a work item brings about in a given state of the catalog, if any: the
  first detector that does not pass raises, or it matches and the catalog refuses the write.
\<close>

definition md_item_fault :: "catalog \<Rightarrow> metadata_detector list \<Rightarrow> column \<Rightarrow> pyexc option" where
  "md_item_fault cat detectors c =
     (case verdict_of (md_answers detectors c) of
        Fault e \<Rightarrow> Some e
      | Match n ty \<Rightarrow> fault cat (writes cat) (c, ty, n)
      | NoMatch \<Rightarrow> None)"

definition dd_item_fault ::
  "catalog \<Rightarrow> datum_detector list \<Rightarrow> column \<Rightarrow> pyval \<Rightarrow> pyexc option" where
  "dd_item_fault cat detectors c v =
     (if v = PyNone then None
      else case verdict_of (dd_answers detectors c v) of
             Fault e \<Rightarrow> Some e
           | Match n ty \<Rightarrow> fault cat (writes cat) (c, ty, n)
           | NoMatch \<Rightarrow> None)"

subsection \<open>Of outcomes\<close>

definition world_of :: "outcome \<Rightarrow> world" where
  "world_of out = (case out of Returned w \<Rightarrow> w | Raised e w \<Rightarrow> w)"

definition raised :: "outcome \<Rightarrow> pyexc option" where
  "raised out = (case out of Returned w \<Rightarrow> None | Raised e w \<Rightarrow> Some e)"

text \<open>
  The counts a scan reports: the pair of its final \<^verbatim>\<open>LOGGER.info\<close> line, processed items
  first, labeled items second.  A scan that raises reports nothing.
\<close>

definition reported :: "outcome \<Rightarrow> (nat \<times> nat) option" where
  "reported out =
     (case out of
        Raised e w \<Rightarrow> None
      | Returned w \<Rightarrow>
          (case rev (LOGGER w) of
             [] \<Rightarrow> None
           | r # rs \<Rightarrow>
               (case r of
                  ColumnsScanned n k \<Rightarrow> Some (n, k)
                | ScanningColumn c \<Rightarrow> None
                | ColumnHas c t \<Rightarrow> None)))"

text \<open>The catalog writes of a scan: what its outcome holds beyond what the catalog held before.\<close>

definition new_writes :: "world \<Rightarrow> outcome \<Rightarrow> pii_write list" where
  "new_writes w out = drop (length (writes (the_catalog w))) (writes (the_catalog (world_of out)))"

text \<open>The detector calls of a scan: what its outcome's call trace holds beyond the trace before.\<close>

definition new_calls :: "world \<Rightarrow> outcome \<Rightarrow> detect_call list" where
  "new_calls w out = drop (length (detect_calls w)) (detect_calls (world_of out))"

text \<open>
  Two ways of looking at a world from aside, used to compare runs: \<open>with_history h w\<close> is
  \<open>w\<close> with the log streams and the call trace of \<open>h\<close> put before its own, and \<open>quiet w\<close>
  is \<open>w\<close> without its \<^verbatim>\<open>LOGGER\<close> lines.
\<close>

definition with_history :: "world \<Rightarrow> world \<Rightarrow> world" where
  "with_history h w =
     w\<lparr>detect_calls := detect_calls h @ detect_calls w,
       LOGGER := LOGGER h @ LOGGER w,
       scan_logger := scan_logger h @ scan_logger w,
       data_logger := data_logger h @ data_logger w\<rparr>"

definition no_history :: "world \<Rightarrow> world" where
  "no_history w = w\<lparr>detect_calls := [], LOGGER := [], scan_logger := [], data_logger := []\<rparr>"

definition quiet :: "world \<Rightarrow> world" where
  "quiet w = w\<lparr>LOGGER := []\<rparr>"

definition map_outcome :: "(world \<Rightarrow> world) \<Rightarrow> outcome \<Rightarrow> outcome" where
  "map_outcome f out = (case out of Returned w \<Rightarrow> Returned (f w) | Raised e w \<Rightarrow> Raised e (f w))"

subsection \<open>The built-in detectors as detector objects, and sample inputs\<close>

definition ColumnNameRegexDetector :: metadata_detector where
  "ColumnNameRegexDetector =
     \<lparr>md_name = ''ColumnNameRegexDetector'',
      md_detect = (\<lambda>col. Inr (ColumnNameRegexDetector_detect col))\<rparr>"

definition DatumRegexDetector :: "common_regex \<Rightarrow> datum_detector" where
  "DatumRegexDetector CommonRegex =
     \<lparr>dd_name = ''DatumRegexDetector'',
      dd_detect = (\<lambda>col datum. Inr (DatumRegexDetector_detect CommonRegex col datum))\<rparr>"

text \<open>A world to start a scan in: a catalog that holds nothing and never raises, and empty logs.\<close>

definition fresh_world :: world where
  "fresh_world =
     \<lparr>the_catalog = \<lparr>writes = [], fault = (\<lambda>ws wr. None)\<rparr>,
      detect_calls = [], LOGGER = [], scan_logger = [], data_logger = []\<rparr>"

definition ssn_column :: column where
  "ssn_column = \<lparr>name = ''ssn'', fqdn = ''hr.staff.ssn''\<rparr>"

definition id_column :: column where
  "id_column = \<lparr>name = ''id'', fqdn = ''hr.staff.id''\<rparr>"

definition staff_columns :: "(cat_schema \<times> cat_table \<times> column) list" where
  "staff_columns = [(''hr'', ''staff'', ssn_column), (''hr'', ''staff'', id_column)]"

text \<open>
  A datum detector of a third party that goes by the column's name whatever the value is.
\<close>

definition ColumnNameDatumDetector :: datum_detector where
  "ColumnNameDatumDetector =
     \<lparr>dd_name = ''ColumnNameDatumDetector'',
      dd_detect = (\<lambda>col datum. Inr (ColumnNameRegexDetector_detect col))\<rparr>"

definition remarks_column :: column where
  "remarks_column = \<lparr>name = ''remarks'', fqdn = ''crm.calls.remarks''\<rparr>"

definition call_samples :: "datum_item list" where
  "call_samples =
     [(''crm'', ''calls'', remarks_column, PyStr ''call me at 555-123-4567 thanks''),
      (''crm'', ''calls'', remarks_column, PyNone),
      (''crm'', ''calls'', remarks_column, PyStr ''nothing here'')]"

text \<open>A metadata detector that raises whatever it is asked.\<close>

definition BrokenDetector :: metadata_detector where
  "BrokenDetector =
     \<lparr>md_name = ''BrokenDetector'', md_detect = (\<lambda>col. Inl (PyExc ''TypeError''))\<rparr>"

text \<open>A world whose catalog carries out one write and refuses every later one.\<close>

definition one_write_world :: world where
  "one_write_world =
     \<lparr>the_catalog =
        \<lparr>writes = [],
         fault = (\<lambda>ws wr. if ws = [] then None else Some (PyExc ''IntegrityError''))\<rparr>,
      detect_calls = [], LOGGER = [], scan_logger = [], data_logger = []\<rparr>"

definition phone_row :: datum_item where
  "phone_row = (''crm'', ''calls'', remarks_column, PyStr ''call me at 555-123-4567 thanks'')"

definition phone_row2 :: datum_item where
  "phone_row2 = (''crm'', ''calls'', remarks_column, PyStr ''555-123-4567'')"

text \<open>The pattern matches somewhere in the text.\<close>

definition occurs_in :: "(string \<Rightarrow> bool) \<Rightarrow> string \<Rightarrow> bool" where
  "occurs_in pat s = (\<exists>u m v. s = u @ m @ v \<and> pat m)"

text \<open>The patterns in the order in which the detector asks for them, with their PII types.\<close>

definition shapes :: "patterns \<Rightarrow> (pii_type \<times> (string \<Rightarrow> bool)) list" where
  "shapes p =
     [(Phone, phone p), (Email, email p), (CreditCard, credit_card p),
      (Address, street_address p), (SSN, ssn_number p), (ZipCode, zip_code p),
      (PoBox, po_box p), (KTP, ktp_number p)]"

text \<open>
  Patterns to try the detector with.  In a template the letter \<^verbatim>\<open>d\<close> stands for a
  digit and every other character for itself; an email address is a run without blanks
  around one \<^verbatim>\<open>@\<close>, with a dot after it.
\<close>

definition is_digit :: "char \<Rightarrow> bool" where
  "is_digit c = (48 \<le> (of_char c :: nat) \<and> (of_char c :: nat) \<le> 57)"

fun shaped :: "string \<Rightarrow> string \<Rightarrow> bool" where
  "shaped [] [] = True"
| "shaped (t # ts) (c # cs) = ((if t = CHR ''d'' then is_digit c else c = t) \<and> shaped ts cs)"
| "shaped ts cs = False"

definition email_like :: "string \<Rightarrow> bool" where
  "email_like m =
     (let name = takeWhile (\<lambda>c. c \<noteq> CHR ''@'') m;
          rest = dropWhile (\<lambda>c. c \<noteq> CHR ''@'') m
      in name \<noteq> [] \<and> rest \<noteq> [] \<and> CHR '' '' \<notin> set m
         \<and> CHR ''@'' \<notin> set (tl rest) \<and> CHR ''.'' \<in> set (tl rest) \<and> last m \<noteq> CHR ''.'')"

definition sample_patterns :: patterns where
  "sample_patterns =
     \<lparr>phone = shaped ''ddd-ddd-dddd'',
      email = email_like,
      credit_card = shaped ''dddd-dddd-dddd-dddd'',
      street_address = shaped ''dd Elm Street'',
      ssn_number = shaped ''ddd-dd-dddd'',
      zip_code = shaped ''ddddd'',
      po_box = shaped ''PO Box ddd'',
      ktp_number = shaped ''dddddddddddddddd''\<rparr>"

section \<open>The name detector\<close>

lemma detect_items_Some_first:
  "detect_items tbl col = Some t \<Longrightarrow>
     \<exists>i < length tbl. fst (tbl ! i) = t \<and> re_match (snd (tbl ! i)) (name col)
        \<and> (\<forall>j < i. \<not> re_match (snd (tbl ! j)) (name col))"
proof (induction tbl col rule: detect_items.induct)
  case (1 col)
  then show ?case by simp
next
  case (2 pii ex rest col)
  show ?case
  proof (cases "re_match ex (name col)")
    case True
    with "2.prems" have "t = pii" by simp
    with True show ?thesis by (intro exI [of _ 0]) simp
  next
    case False
    with "2.prems" have "detect_items rest col = Some t" by simp
    with "2.IH" False obtain i where i: "i < length rest" "fst (rest ! i) = t"
      "re_match (snd (rest ! i)) (name col)"
      "\<forall>j < i. \<not> re_match (snd (rest ! j)) (name col)"
      by blast
    have "\<forall>j < Suc i. \<not> re_match (snd (((pii, ex) # rest) ! j)) (name col)"
      using False i(4) by (simp add: nth_Cons split: nat.split)
    with i show ?thesis by (intro exI [of _ "Suc i"]) simp
  qed
qed

lemma detect_items_first_Some:
  "i < length tbl \<Longrightarrow> re_match (snd (tbl ! i)) (name col) \<Longrightarrow>
     \<forall>j < i. \<not> re_match (snd (tbl ! j)) (name col) \<Longrightarrow>
     detect_items tbl col = Some (fst (tbl ! i))"
proof (induction tbl col arbitrary: i rule: detect_items.induct)
  case (1 col)
  then show ?case by simp
next
  case (2 pii ex rest col)
  show ?case
  proof (cases i)
    case 0
    with "2.prems" show ?thesis by simp
  next
    case (Suc k)
    with "2.prems"(3) have nohead: "\<not> re_match ex (name col)" by fastforce
    have "\<forall>j < k. \<not> re_match (snd (rest ! j)) (name col)"
    proof (intro allI impI)
      fix j assume "j < k"
      then have "Suc j < i" using Suc by simp
      with "2.prems"(3) have "\<not> re_match (snd (((pii, ex) # rest) ! Suc j)) (name col)"
        by blast
      then show "\<not> re_match (snd (rest ! j)) (name col)" by simp
    qed
    with "2.IH" [OF nohead, of k] "2.prems" Suc nohead show ?thesis by simp
  qed
qed

lemma detect_items_None_iff:
  "detect_items tbl col = None \<longleftrightarrow> list_all (\<lambda>(t, ex). \<not> re_match ex (name col)) tbl"
  by (induction tbl col rule: detect_items.induct) auto

lemma regex_order:
  "map fst regex =
     [Person, Email, BirthDate, Gender, Nationality, Address, ZipCode, UserName,
      Password, SSN, PoBox, CreditCard, Phone, KTP]"
  by (simp add: regex_def)

lemma regex_compiles: "list_all (\<lambda>(t, ex). ast ex \<noteq> never) regex"
  by code_simp

lemma regex_shape:
  "list_all (\<lambda>(t, ex). ignorecase ex \<and> anchored_start (ast ex) \<and> anchored_end (ast ex)) regex"
  by code_simp

subsection \<open>Matching ignores the case of letters\<close>

lemma lower_idem: "lower (lower c) = lower c"
  unfolding lower_def Let_def by auto

lemma lower_newline_iff: "lower c = newline \<longleftrightarrow> c = newline"
  unfolding lower_def Let_def newline_def
  by (auto dest!: arg_cong [where f = "of_char :: char \<Rightarrow> nat"])

lemma step_char_fold_case:
  assumes "\<And>c. P (lower c) = P c"
  shows "step_char P (fold_case st) = map fold_case (step_char P st)"
proof (cases st)
  case (Pair n cs)
  then show ?thesis using assms by (cases cs) (auto simp: fold_case_def)
qed

lemma ends_fold_case:
  "ic \<Longrightarrow> ends ic r (fold_case st) = map fold_case (ends ic r st)"
proof (induction ic r st rule: ends.induct)
  case (1 ic a st)
  then show ?case by (simp add: step_char_fold_case lower_idem)
next
  case (2 ic st)
  then show ?case by (simp add: step_char_fold_case lower_newline_iff)
next
  case (3 ic st)
  then show ?case by (simp add: fold_case_def)
next
  case (4 ic st)
  have "map lower (snd st) = [newline] \<longleftrightarrow> snd st = [newline]"
    by (cases "snd st") (auto simp: lower_newline_iff)
  then show ?case by (simp add: fold_case_def)
next
  case (5 ic st)
  then show ?case by simp
next
  case (6 ic r1 r2 st)
  have "map (ends ic r2) (map fold_case (ends ic r1 st))
        = map (map fold_case \<circ> ends ic r2) (ends ic r1 st)"
    unfolding map_map
  proof (rule map_cong [OF refl])
    fix x assume "x \<in> set (ends ic r1 st)"
    then show "(ends ic r2 \<circ> fold_case) x = (map fold_case \<circ> ends ic r2) x"
      unfolding comp_def by (rule "6.IH"(2) [OF _ "6.prems"])
  qed
  then have "concat (map (ends ic r2) (map fold_case (ends ic r1 st)))
             = map fold_case (concat (map (ends ic r2) (ends ic r1 st)))"
    by (simp only: map_concat map_map)
  then show ?case
    by (simp only: ends.simps "6.IH"(1) [OF "6.prems"])
next
  case (7 ic r1 r2 st)
  then show ?case by simp
next
  case (8 ic r st)
  let ?P = "\<lambda>st'. length (snd st') < length (snd st)"
  have len: "length (snd (fold_case x)) = length (snd x)" for x
    by (simp add: fold_case_def)
  have flt: "filter (\<lambda>st'. length (snd st') < length (snd (fold_case st)))
               (ends ic r (fold_case st))
             = map fold_case (filter ?P (ends ic r st))"
    by (simp only: "8.IH"(1) [OF "8.prems"] filter_map comp_def len)
  have "map (ends ic (Star r)) (map fold_case (filter ?P (ends ic r st)))
        = map (map fold_case \<circ> ends ic (Star r)) (filter ?P (ends ic r st))"
    unfolding map_map
  proof (rule map_cong [OF refl])
    fix x assume "x \<in> set (filter ?P (ends ic r st))"
    then show "(ends ic (Star r) \<circ> fold_case) x = (map fold_case \<circ> ends ic (Star r)) x"
      unfolding comp_def by (rule "8.IH"(2) [OF _ "8.prems"])
  qed
  then have "concat (map (ends ic (Star r)) (map fold_case (filter ?P (ends ic r st))))
             = map fold_case (concat (map (ends ic (Star r)) (filter ?P (ends ic r st))))"
    by (simp only: map_concat map_map)
  then show ?case
    by (simp only: ends.simps(8) [of ic r] flt list.map)
qed

lemma re_match_lower: "ignorecase ex \<Longrightarrow> re_match ex (map lower s) = re_match ex s"
  using ends_fold_case [of "ignorecase ex" "ast ex" "(0, s)"]
  by (simp add: re_match_def fold_case_def)

lemma re_match_same_fold:
  "ignorecase ex \<Longrightarrow> map lower s1 = map lower s2 \<Longrightarrow> re_match ex s1 = re_match ex s2"
  using re_match_lower [of ex s1] re_match_lower [of ex s2] by simp

lemma detect_items_same_fold:
  "list_all (\<lambda>(t, ex). ignorecase ex) tbl \<Longrightarrow> map lower (name c1) = map lower (name c2) \<Longrightarrow>
     detect_items tbl c1 = detect_items tbl c2"
  by (induction tbl) (auto simp: re_match_same_fold [of _ "name c1" "name c2"])

subsection \<open>Anchored patterns match the whole name\<close>

lemma anchored_start_ends: "anchored_start r \<Longrightarrow> fst st \<noteq> 0 \<Longrightarrow> ends ic r st = []"
  by (induction r arbitrary: st) auto

lemma anchored_end_ends:
  "anchored_end r \<Longrightarrow> st' \<in> set (ends ic r st) \<Longrightarrow> snd st' = [] \<or> snd st' = [newline]"
  by (induction r arbitrary: st st') (fastforce split: if_splits)+

lemma anchored_matches:
  assumes "anchored_start r" and "anchored_end r"
  shows "list_all (\<lambda>st. n = 0 \<and> (snd st = [] \<or> snd st = [newline])) (ends ic r (n, s))"
proof (cases "n = 0")
  case True
  then show ?thesis
    using anchored_end_ends [OF assms(2), of _ ic "(n, s)"] by (simp add: list_all_iff)
next
  case False
  then have "ends ic r (n, s) = []"
    using anchored_start_ends [OF assms(1), of "(n, s)" ic] by simp
  then show ?thesis by simp
qed

lemma regex_anchored_matches:
  "list_all (\<lambda>(t, ex). list_all (\<lambda>st. n = 0 \<and> (snd st = [] \<or> snd st = [newline]))
                                 (ends (ignorecase ex) (ast ex) (n, s))) regex"
  unfolding list_all_iff [of _ regex]
proof (intro ballI)
  fix x assume x: "x \<in> set regex"
  obtain t ex where tx: "x = (t, ex)" by (cases x)
  from regex_shape x tx have "anchored_start (ast ex)" "anchored_end (ast ex)"
    by (auto simp: list_all_iff)
  from anchored_matches [OF this] tx
  show "case x of (t, ex) \<Rightarrow> list_all (\<lambda>st. n = 0 \<and> (snd st = [] \<or> snd st = [newline]))
                                 (ends (ignorecase ex) (ast ex) (n, s))"
    by simp
qed

lemma regex_ignorecase: "list_all (\<lambda>(t, ex). ignorecase ex) regex"
  using regex_shape by (auto simp: list_all_iff)

text \<open>
  Claim C2.  \<^verbatim>\<open>ColumnNameRegexDetector.detect\<close> goes through the pattern table in the order
  Person, Email, BirthDate, Gender, Nationality, Address, ZipCode, UserName, Password, SSN,
  PoBox, CreditCard, Phone, KTP and returns the type of the first pattern that matches the
  column's name, and nothing exactly when no pattern matches.  Every pattern ignores the
  case of letters, so two names that differ in case only get the same answer, and every
  match of a pattern begins at the start of the name and ends at its end (or just before
  a final newline).  The names \<^verbatim>\<open>user_email\<close>, \<^verbatim>\<open>zip_code\<close> and \<^verbatim>\<open>notes\<close> give Email,
  ZipCode and nothing.
\<close>

theorem ColumnNameRegexDetector_detect_first_match:
  "map fst regex =
     [Person, Email, BirthDate, Gender, Nationality, Address, ZipCode, UserName,
      Password, SSN, PoBox, CreditCard, Phone, KTP]
   \<and> (ColumnNameRegexDetector_detect col = Some t \<longleftrightarrow>
        (\<exists>i < length regex. fst (regex ! i) = t \<and> re_match (snd (regex ! i)) (name col)
           \<and> (\<forall>j < i. \<not> re_match (snd (regex ! j)) (name col))))
   \<and> (ColumnNameRegexDetector_detect col = None \<longleftrightarrow>
        list_all (\<lambda>(t, ex). \<not> re_match ex (name col)) regex)
   \<and> list_all (\<lambda>(t, ex). ignorecase ex) regex
   \<and> (map lower (name c1) = map lower (name c2) \<longrightarrow>
        ColumnNameRegexDetector_detect c1 = ColumnNameRegexDetector_detect c2)
   \<and> list_all (\<lambda>(t, ex). list_all (\<lambda>st. n = 0 \<and> (snd st = [] \<or> snd st = [newline]))
                                   (ends (ignorecase ex) (ast ex) (n, s))) regex
   \<and> ColumnNameRegexDetector_detect \<lparr>name = ''user_email'', fqdn = f\<rparr> = Some Email
   \<and> ColumnNameRegexDetector_detect \<lparr>name = ''zip_code'', fqdn = f\<rparr> = Some ZipCode
   \<and> ColumnNameRegexDetector_detect \<lparr>name = ''notes'', fqdn = f\<rparr> = None"
proof -
  have some: "ColumnNameRegexDetector_detect col = Some t \<longleftrightarrow>
        (\<exists>i < length regex. fst (regex ! i) = t \<and> re_match (snd (regex ! i)) (name col)
           \<and> (\<forall>j < i. \<not> re_match (snd (regex ! j)) (name col)))"
    unfolding ColumnNameRegexDetector_detect_def
    using detect_items_Some_first [of regex col t] detect_items_first_Some [of _ regex col]
    by blast
  have none: "ColumnNameRegexDetector_detect col = None \<longleftrightarrow>
        list_all (\<lambda>(t, ex). \<not> re_match ex (name col)) regex"
    unfolding ColumnNameRegexDetector_detect_def by (rule detect_items_None_iff)
  have fold: "map lower (name c1) = map lower (name c2) \<longrightarrow>
        ColumnNameRegexDetector_detect c1 = ColumnNameRegexDetector_detect c2"
    unfolding ColumnNameRegexDetector_detect_def
    using detect_items_same_fold [OF regex_ignorecase] by blast
  have e1: "detect_items regex \<lparr>name = ''user_email'', fqdn = []\<rparr> = Some Email"
    by code_simp
  have e2: "detect_items regex \<lparr>name = ''zip_code'', fqdn = []\<rparr> = Some ZipCode"
    by code_simp
  have e3: "detect_items regex \<lparr>name = ''notes'', fqdn = []\<rparr> = None"
    by code_simp
  have nm: "detect_items tbl \<lparr>name = x, fqdn = f\<rparr> = detect_items tbl \<lparr>name = x, fqdn = []\<rparr>"
    for tbl x
    by (induction tbl) auto
  have ex: "ColumnNameRegexDetector_detect \<lparr>name = ''user_email'', fqdn = f\<rparr> = Some Email"
    "ColumnNameRegexDetector_detect \<lparr>name = ''zip_code'', fqdn = f\<rparr> = Some ZipCode"
    "ColumnNameRegexDetector_detect \<lparr>name = ''notes'', fqdn = f\<rparr> = None"
    unfolding ColumnNameRegexDetector_detect_def using e1 e2 e3 by (simp_all only: nm [of _ _])
  show ?thesis
    using regex_order some none regex_ignorecase fold regex_anchored_matches [of n s] ex
    by (intro conjI)
qed

text \<open>
  The characterisation at the column \<^verbatim>\<open>User_Email\<close>: the Person pattern does not match, the
  Email pattern does, and the all-capitals spelling of the name gets the same answer.
\<close>

theorem ColumnNameRegexDetector_detect_first_match_witness:
  "re_match (snd (regex ! 1)) ''User_Email''
   \<and> \<not> re_match (snd (regex ! 0)) ''User_Email''
   \<and> ColumnNameRegexDetector_detect \<lparr>name = ''User_Email'', fqdn = ''shop.users.User_Email''\<rparr>
       = Some Email
   \<and> ColumnNameRegexDetector_detect \<lparr>name = ''USER_EMAIL'', fqdn = ''shop.users.USER_EMAIL''\<rparr>
       = Some Email"
proof -
  let ?c = "\<lparr>name = ''User_Email'', fqdn = ''shop.users.User_Email''\<rparr>"
  let ?d = "\<lparr>name = ''USER_EMAIL'', fqdn = ''shop.users.USER_EMAIL''\<rparr>"
  note inst = ColumnNameRegexDetector_detect_first_match [of ?c Email ?c ?d 0 "''User_Email''" "[]"]
  have m1: "re_match (snd (regex ! 1)) ''User_Email''" by code_simp
  have m0: "\<not> re_match (snd (regex ! 0)) ''User_Email''" by code_simp
  have "fst (regex ! 1) = Email" "(1::nat) < length regex" by (simp_all add: regex_def)
  with m0 m1 have "\<exists>i < length regex. fst (regex ! i) = Email \<and> re_match (snd (regex ! i)) (name ?c)
           \<and> (\<forall>j < i. \<not> re_match (snd (regex ! j)) (name ?c))"
    by (intro exI [of _ 1]) simp
  with inst have c: "ColumnNameRegexDetector_detect ?c = Some Email" by blast
  have "map lower (name ?c) = map lower (name ?d)" by code_simp
  with inst c have "ColumnNameRegexDetector_detect ?d = Some Email" by metis
  with m0 m1 c show ?thesis by blast
qed


subsection \<open>The Password pattern\<close>

lemma ends_SeqI:
  "st1 \<in> set (ends ic r1 st) \<Longrightarrow> st2 \<in> set (ends ic r2 st1) \<Longrightarrow> st2 \<in> set (ends ic (Seq r1 r2) st)"
  by auto

lemma ends_Star_self: "st \<in> set (ends ic (Star r) st)"
  by (subst ends.simps(8)) simp

lemma ends_dotstar_Cons:
  "ends ic (Star Dot) (n, c # cs) =
     (n, c # cs) # (if c \<noteq> newline then ends ic (Star Dot) (Suc n, cs) else [])"
  by (subst ends.simps(8)) simp

lemma ends_dotstarI:
  "newline \<notin> set u \<Longrightarrow> (n + length u, rest) \<in> set (ends ic (Star Dot) (n, u @ rest))"
proof (induction u arbitrary: n)
  case Nil
  then show ?case by (simp add: ends_Star_self)
next
  case (Cons c u)
  from Cons.prems have "newline \<notin> set u" by simp
  from Cons.IH [OF this, of "Suc n"] Cons.prems show ?case
    by (auto simp: ends_dotstar_Cons)
qed

lemma password_ast:
  "ast (re_compile ''^.*pass.*$'' True) =
     Seq Bol (Seq (Star Dot) (Seq (Lit CHR ''p'') (Seq (Lit CHR ''a'')
       (Seq (Lit CHR ''s'') (Seq (Lit CHR ''s'') (Seq (Star Dot) Eol))))))"
  by code_simp

lemma lower_pass:
  "lower CHR ''p'' = CHR ''p''" "lower CHR ''a'' = CHR ''a''" "lower CHR ''s'' = CHR ''s''"
  by (simp_all add: lower_def)

lemma password_matches:
  assumes "s = u @ t @ v @ fin" and "map lower t = ''pass''"
    and "newline \<notin> set u" and "newline \<notin> set v" and "fin = [] \<or> fin = [newline]"
  shows "re_match (re_compile ''^.*pass.*$'' True) s"
proof -
  from assms(2) obtain c1 c2 c3 c4 where t: "t = [c1, c2, c3, c4]"
    and c: "lower c1 = CHR ''p''" "lower c2 = CHR ''a''" "lower c3 = CHR ''s''" "lower c4 = CHR ''s''"
    by (auto simp: map_eq_Cons_conv)
  let ?n = "length u"
  have s1: "(0, s) \<in> set (ends True Bol (0, s))" by simp
  have s2: "(?n, t @ v @ fin) \<in> set (ends True (Star Dot) (0, s))"
    using ends_dotstarI [OF assms(3), of 0 "t @ v @ fin" True] assms(1) by simp
  have s3: "(Suc ?n, [c2, c3, c4] @ v @ fin) \<in> set (ends True (Lit CHR ''p'') (?n, t @ v @ fin))"
    using c by (simp add: t lower_pass)
  have s4: "(Suc (Suc ?n), [c3, c4] @ v @ fin)
              \<in> set (ends True (Lit CHR ''a'') (Suc ?n, [c2, c3, c4] @ v @ fin))"
    using c by (simp add: lower_pass)
  have s5: "(Suc (Suc (Suc ?n)), [c4] @ v @ fin)
              \<in> set (ends True (Lit CHR ''s'') (Suc (Suc ?n), [c3, c4] @ v @ fin))"
    using c by (simp add: lower_pass)
  have s6: "(?n + 4, v @ fin) \<in> set (ends True (Lit CHR ''s'') (Suc (Suc (Suc ?n)), [c4] @ v @ fin))"
    using c by (simp add: lower_pass)
  have s7: "(?n + 4 + length v, fin) \<in> set (ends True (Star Dot) (?n + 4, v @ fin))"
    by (rule ends_dotstarI [OF assms(4)])
  have s8: "(?n + 4 + length v, fin) \<in> set (ends True Eol (?n + 4 + length v, fin))"
    using assms(5) by auto
  have "(?n + 4 + length v, fin) \<in> set (ends True (ast (re_compile ''^.*pass.*$'' True)) (0, s))"
    unfolding password_ast
    by (intro ends_SeqI [OF s1] ends_SeqI [OF s2] ends_SeqI [OF s3] ends_SeqI [OF s4]
          ends_SeqI [OF s5] ends_SeqI [OF s6] ends_SeqI [OF s7] s8)
  moreover have "ignorecase (re_compile ''^.*pass.*$'' True)" by (simp add: re_compile_def)
  ultimately show ?thesis by (auto simp: re_match_def)
qed

lemma contains_ciD:
  "contains_ci tok s \<Longrightarrow> \<exists>u t v. s = u @ t @ v \<and> map lower t = map lower tok"
proof (induction s)
  case Nil
  then have "[] = [] @ tok @ [] \<and> map lower tok = map lower tok" by simp
  then show ?case by (intro exI)
next
  case (Cons c cs)
  show ?case
  proof (cases "prefix (map lower tok) (map lower (c # cs))")
    case True
    then obtain zs where "map lower (c # cs) = map lower tok @ zs"
      by (rule prefixE)
    then have "\<exists>t v. c # cs = t @ v \<and> map lower tok = map lower t \<and> zs = map lower v"
      by (simp only: map_eq_append_conv)
    then obtain t v where "c # cs = t @ v" "map lower tok = map lower t"
      by (elim exE conjE)
    then have "c # cs = [] @ t @ v \<and> map lower t = map lower tok" by simp
    then show ?thesis by (intro exI)
  next
    case False
    with Cons.prems have "contains_ci tok cs" by simp
    from Cons.IH [OF this] obtain u t v where "cs = u @ t @ v" "map lower t = map lower tok"
      by (elim exE conjE)
    then have "c # cs = (c # u) @ t @ v \<and> map lower t = map lower tok" by simp
    then show ?thesis by (intro exI)
  qed
qed

lemma map_lower_pass: "map lower ''pass'' = ''pass''"
  by (simp add: lower_pass)

lemma single_line_split:
  assumes "contains_ci ''pass'' s" and "newline \<notin> set (butlast s)"
  shows "\<exists>u t v fin. s = u @ t @ v @ fin \<and> map lower t = ''pass'' \<and> newline \<notin> set u
           \<and> newline \<notin> set v \<and> (fin = [] \<or> fin = [newline])"
proof -
  from contains_ciD [OF assms(1)] obtain u t v where s: "s = u @ t @ v"
    and t: "map lower t = ''pass''"
    unfolding map_lower_pass by (elim exE conjE)
  from t have tne: "t \<noteq> []" by auto
  show ?thesis
  proof (cases v rule: rev_cases)
    case Nil
    with s tne assms(2) have "newline \<notin> set u" by (simp add: butlast_append)
    with s t Nil have "s = u @ t @ [] @ [] \<and> map lower t = ''pass'' \<and> newline \<notin> set u
           \<and> newline \<notin> set [] \<and> ([] = [] \<or> [] = [newline])" by simp
    then show ?thesis by (intro exI)
  next
    case (snoc v' x)
    with s assms(2) have nl: "newline \<notin> set u" "newline \<notin> set v'"
      by (simp_all add: butlast_append)
    show ?thesis
    proof (cases "x = newline")
      case True
      with s t snoc nl have "s = u @ t @ v' @ [newline] \<and> map lower t = ''pass''
           \<and> newline \<notin> set u \<and> newline \<notin> set v' \<and> ([newline] = [] \<or> [newline] = [newline])"
        by simp
      then show ?thesis by (intro exI)
    next
      case False
      with s t snoc nl have "s = u @ t @ v @ [] \<and> map lower t = ''pass''
           \<and> newline \<notin> set u \<and> newline \<notin> set v \<and> ([] = [] \<or> [] = [newline])"
        by auto
      then show ?thesis by (intro exI)
    qed
  qed
qed

lemma regex_Password: "regex ! 8 = (Password, re_compile ''^.*pass.*$'' True)" "length regex = 14"
  by (simp_all add: regex_def)

lemma regex_earlier:
  "map fst (take 8 regex) =
     [Person, Email, BirthDate, Gender, Nationality, Address, ZipCode, UserName]"
  by (simp add: regex_def)

text \<open>
  Claim C10, as amended.  A column whose name contains \<^verbatim>\<open>pass\<close> in any mix of cases, has
  no line break other than a final newline, and is matched by none of the eight entries
  before Password (Person, Email, BirthDate, Gender, Nationality, Address, ZipCode,
  UserName) is classified as Password.
\<close>

theorem password_catches_single_line_names:
  assumes "contains_ci ''pass'' (name col)"
    and "newline \<notin> set (butlast (name col))"
    and "list_all (\<lambda>(t, ex). \<not> re_match ex (name col)) (take 8 regex)"
  shows "map fst (take 8 regex) =
           [Person, Email, BirthDate, Gender, Nationality, Address, ZipCode, UserName]
         \<and> ColumnNameRegexDetector_detect col = Some Password"
proof -
  from single_line_split [OF assms(1,2)] obtain u t v fin where
    "name col = u @ t @ v @ fin" "map lower t = ''pass''" "newline \<notin> set u"
    "newline \<notin> set v" "fin = [] \<or> fin = [newline]"
    by (elim exE conjE)
  from password_matches [OF this]
  have m: "re_match (snd (regex ! 8)) (name col)"
    by (simp only: regex_Password(1) snd_conv)
  have "\<forall>j < 8. \<not> re_match (snd (regex ! j)) (name col)"
  proof (intro allI impI)
    fix j :: nat assume j: "j < 8"
    then have "take 8 regex ! j \<in> set (take 8 regex)"
      by (intro nth_mem) (simp add: regex_Password(2))
    with assms(3) have "\<not> re_match (snd (take 8 regex ! j)) (name col)"
      by (auto simp: list_all_iff)
    with j show "\<not> re_match (snd (regex ! j)) (name col)" by simp
  qed
  from detect_items_first_Some [OF _ m this]
  have "ColumnNameRegexDetector_detect col = Some Password"
    by (simp add: ColumnNameRegexDetector_detect_def regex_Password)
  with regex_earlier show ?thesis by simp
qed

text \<open>The column \<^verbatim>\<open>passport\<close> meets the three conditions and is classified as Password.\<close>

theorem password_catches_single_line_names_witness:
  "contains_ci ''pass'' ''passport''
   \<and> newline \<notin> set (butlast ''passport'')
   \<and> list_all (\<lambda>(t, ex). \<not> re_match ex ''passport'') (take 8 regex)
   \<and> ColumnNameRegexDetector_detect \<lparr>name = ''passport'', fqdn = ''hr.staff.passport''\<rparr>
       = Some Password"
proof -
  let ?c = "\<lparr>name = ''passport'', fqdn = ''hr.staff.passport''\<rparr>"
  have h1: "contains_ci ''pass'' (name ?c)" by code_simp
  have h2: "newline \<notin> set (butlast (name ?c))" by code_simp
  have h3: "list_all (\<lambda>(t, ex). \<not> re_match ex (name ?c)) (take 8 regex)" by code_simp
  from password_catches_single_line_names [OF h1 h2 h3] h1 h2 h3 show ?thesis by simp
qed

text \<open>
  Without the condition on line breaks the statement fails.  The name made of \<^verbatim>\<open>pass\<close>,
  a newline and \<^verbatim>\<open>x\<close> contains \<^verbatim>\<open>pass\<close> and is matched by no earlier entry, yet the
  detector returns nothing: the dot of the Password pattern stops at the newline, and
  \<^verbatim>\<open>$\<close> does not hold in the middle of the text.
\<close>

theorem password_misses_multi_line_name:
  "contains_ci ''pass'' (''pass'' @ newline # ''x'')
   \<and> list_all (\<lambda>(t, ex). \<not> re_match ex (''pass'' @ newline # ''x'')) (take 8 regex)
   \<and> ColumnNameRegexDetector_detect \<lparr>name = ''pass'' @ newline # ''x'', fqdn = ''t.c''\<rparr> = None"
  by code_simp

section \<open>The value detector\<close>

lemma first_recognizer_None_iff:
  "first_recognizer rs s = None \<longleftrightarrow> list_all (\<lambda>(t, r). r s = []) rs"
  by (induction rs s rule: first_recognizer.induct) auto

lemma first_recognizer_Some_first:
  "first_recognizer rs s = Some t \<Longrightarrow>
     \<exists>i < length rs. fst (rs ! i) = t \<and> snd (rs ! i) s \<noteq> []
        \<and> (\<forall>j < i. snd (rs ! j) s = [])"
proof (induction rs s rule: first_recognizer.induct)
  case (1 s)
  then show ?case by simp
next
  case (2 pii r rest s)
  show ?case
  proof (cases "r s \<noteq> []")
    case True
    with "2.prems" have "t = pii" by simp
    with True show ?thesis by (intro exI [of _ 0]) simp
  next
    case False
    with "2.prems" have "first_recognizer rest s = Some t" by simp
    with "2.IH" False obtain i where i: "i < length rest" "fst (rest ! i) = t"
      "snd (rest ! i) s \<noteq> []" "\<forall>j < i. snd (rest ! j) s = []"
      by blast
    have "\<forall>j < Suc i. snd (((pii, r) # rest) ! j) s = []"
      using False i(4) by (simp add: nth_Cons split: nat.split)
    with i show ?thesis by (intro exI [of _ "Suc i"]) simp
  qed
qed

lemma first_recognizer_first_Some:
  "i < length rs \<Longrightarrow> snd (rs ! i) s \<noteq> [] \<Longrightarrow> \<forall>j < i. snd (rs ! j) s = [] \<Longrightarrow>
     first_recognizer rs s = Some (fst (rs ! i))"
proof (induction rs s arbitrary: i rule: first_recognizer.induct)
  case (1 s)
  then show ?case by simp
next
  case (2 pii r rest s)
  show ?case
  proof (cases i)
    case 0
    with "2.prems" show ?thesis by simp
  next
    case (Suc k)
    with "2.prems"(3) have nohead: "\<not> r s \<noteq> []" by fastforce
    have "\<forall>j < k. snd (rest ! j) s = []"
    proof (intro allI impI)
      fix j assume "j < k"
      then have "Suc j < i" using Suc by simp
      with "2.prems"(3) have "snd (((pii, r) # rest) ! Suc j) s = []" by blast
      then show "snd (rest ! j) s = []" by simp
    qed
    with "2.IH" [OF nohead, of k] "2.prems" Suc nohead show ?thesis by simp
  qed
qed

lemma DatumRegexDetector_detect_first_recognizer:
  "DatumRegexDetector_detect cr col datum = first_recognizer (recognizers cr) (str datum)"
  by (simp add: DatumRegexDetector_detect_def recognizers_def)

lemma in_set_substrings: "m \<in> set (substrings s) \<longleftrightarrow> (\<exists>u v. s = u @ m @ v)"
proof
  assume "m \<in> set (substrings s)"
  then have "\<exists>x \<in> set (suffixes s). m \<in> set (prefixes x)"
    by (simp add: substrings_def)
  then obtain x where "x \<in> set (suffixes s)" "m \<in> set (prefixes x)" by (elim bexE)
  then have "suffix x s" "prefix m x"
    by (simp_all only: in_set_suffixes in_set_prefixes)
  then obtain u v where "s = u @ x" "x = m @ v"
    by (elim suffixE prefixE)
  then have "s = u @ m @ v" by simp
  then show "\<exists>u v. s = u @ m @ v" by (intro exI)
next
  assume "\<exists>u v. s = u @ m @ v"
  then obtain u v where s: "s = u @ m @ v" by (elim exE)
  have "suffix (m @ v) s" unfolding s by (rule suffixI) simp
  then have "m @ v \<in> set (suffixes s)" by (simp only: in_set_suffixes)
  moreover have "m \<in> set (prefixes (m @ v))" by (simp only: in_set_prefixes prefixI)
  ultimately have "\<exists>x \<in> set (suffixes s). m \<in> set (prefixes x)" by (rule bexI [rotated])
  then show "m \<in> set (substrings s)" by (simp add: substrings_def)
qed

lemma matches_in_occurs: "matches_in pat s \<noteq> [] \<longleftrightarrow> occurs_in pat s"
proof
  assume "matches_in pat s \<noteq> []"
  then have "\<exists>m \<in> set (substrings s). pat m"
    by (simp add: matches_in_def filter_empty_conv)
  then obtain m where "m \<in> set (substrings s)" and p: "pat m" by (elim bexE)
  then have "\<exists>u v. s = u @ m @ v" by (simp only: in_set_substrings)
  then obtain u v where "s = u @ m @ v" by (elim exE)
  with p have "s = u @ m @ v \<and> pat m" by simp
  then show "occurs_in pat s" unfolding occurs_in_def by (intro exI)
next
  assume "occurs_in pat s"
  then obtain u m v where s: "s = u @ m @ v" and p: "pat m"
    unfolding occurs_in_def by (elim exE conjE)
  from s have "\<exists>u v. s = u @ m @ v" by (intro exI)
  then have "m \<in> set (substrings s)" by (simp only: in_set_substrings)
  with p have "\<exists>m \<in> set (substrings s). pat m" by (rule bexI)
  then show "matches_in pat s \<noteq> []"
    by (simp add: matches_in_def filter_empty_conv)
qed

lemma recognizers_crim:
  "recognizers (crim p) = map (\<lambda>(t, pat). (t, matches_in pat)) (shapes p)"
  by (simp add: recognizers_def crim_def shapes_def)

lemma shapes_length: "length (shapes p) = 8"
  by (simp add: shapes_def)

lemma recognizers_nth:
  assumes "i < length (shapes p)"
  shows "fst (recognizers (crim p) ! i) = fst (shapes p ! i)"
    and "snd (recognizers (crim p) ! i) s \<noteq> [] \<longleftrightarrow> occurs_in (snd (shapes p ! i)) s"
proof -
  obtain t pat where tp: "shapes p ! i = (t, pat)" by (cases "shapes p ! i")
  with assms have "recognizers (crim p) ! i = (t, matches_in pat)"
    by (simp add: recognizers_crim)
  with tp show "fst (recognizers (crim p) ! i) = fst (shapes p ! i)"
    and "snd (recognizers (crim p) ! i) s \<noteq> [] \<longleftrightarrow> occurs_in (snd (shapes p ! i)) s"
    by (simp_all add: matches_in_occurs)
qed

lemma detect_crim_Some_iff:
  "DatumRegexDetector_detect (crim p) col datum = Some t \<longleftrightarrow>
     (\<exists>i < length (shapes p). fst (shapes p ! i) = t
        \<and> occurs_in (snd (shapes p ! i)) (str datum)
        \<and> (\<forall>j < i. \<not> occurs_in (snd (shapes p ! j)) (str datum)))"
proof
  assume "DatumRegexDetector_detect (crim p) col datum = Some t"
  then have "first_recognizer (recognizers (crim p)) (str datum) = Some t"
    by (simp add: DatumRegexDetector_detect_first_recognizer)
  from first_recognizer_Some_first [OF this] obtain i where
    i: "i < length (recognizers (crim p))"
    and t: "fst (recognizers (crim p) ! i) = t"
    and m: "snd (recognizers (crim p) ! i) (str datum) \<noteq> []"
    and e: "\<forall>j < i. snd (recognizers (crim p) ! j) (str datum) = []"
    by blast
  from i have il: "i < length (shapes p)" by (simp add: recognizers_crim)
  have "\<forall>j < i. \<not> occurs_in (snd (shapes p ! j)) (str datum)"
  proof (intro allI impI)
    fix j assume j: "j < i"
    with il have "j < length (shapes p)" by simp
    from recognizers_nth(2) [OF this, of "str datum"] e j
    show "\<not> occurs_in (snd (shapes p ! j)) (str datum)" by simp
  qed
  with il t m recognizers_nth(1) [OF il] recognizers_nth(2) [OF il, of "str datum"]
  show "\<exists>i < length (shapes p). fst (shapes p ! i) = t
        \<and> occurs_in (snd (shapes p ! i)) (str datum)
        \<and> (\<forall>j < i. \<not> occurs_in (snd (shapes p ! j)) (str datum))"
    by (intro exI [of _ i]) simp
next
  assume "\<exists>i < length (shapes p). fst (shapes p ! i) = t
        \<and> occurs_in (snd (shapes p ! i)) (str datum)
        \<and> (\<forall>j < i. \<not> occurs_in (snd (shapes p ! j)) (str datum))"
  then obtain i where il: "i < length (shapes p)" and t: "fst (shapes p ! i) = t"
    and m: "occurs_in (snd (shapes p ! i)) (str datum)"
    and e: "\<forall>j < i. \<not> occurs_in (snd (shapes p ! j)) (str datum)"
    by blast
  have i: "i < length (recognizers (crim p))"
    using il by (simp add: recognizers_crim)
  have m': "snd (recognizers (crim p) ! i) (str datum) \<noteq> []"
    using recognizers_nth(2) [OF il, of "str datum"] m by simp
  have e': "\<forall>j < i. snd (recognizers (crim p) ! j) (str datum) = []"
  proof (intro allI impI)
    fix j assume j: "j < i"
    with il have "j < length (shapes p)" by simp
    from recognizers_nth(2) [OF this, of "str datum"] e j
    show "snd (recognizers (crim p) ! j) (str datum) = []" by simp
  qed
  from first_recognizer_first_Some [OF i m' e'] recognizers_nth(1) [OF il] t
  show "DatumRegexDetector_detect (crim p) col datum = Some t"
    by (simp add: DatumRegexDetector_detect_first_recognizer)
qed

lemma detect_crim_None_iff:
  "DatumRegexDetector_detect (crim p) col datum = None \<longleftrightarrow>
     list_all (\<lambda>(t, pat). \<not> occurs_in pat (str datum)) (shapes p)"
  unfolding DatumRegexDetector_detect_first_recognizer first_recognizer_None_iff
    recognizers_crim
  by (simp add: list_all_iff split_beta matches_in_occurs [symmetric])

lemma detect_phone_anywhere:
  "phone p m \<Longrightarrow> DatumRegexDetector_detect (crim p) col (PyStr (u @ m @ v)) = Some Phone"
proof -
  assume "phone p m"
  then have "occurs_in (phone p) (u @ m @ v)"
    unfolding occurs_in_def by blast
  then have "phones (crim p) (str (PyStr (u @ m @ v))) \<noteq> []"
    by (simp add: crim_def matches_in_occurs)
  then show ?thesis by (simp add: DatumRegexDetector_detect_def)
qed

lemma shapes_order:
  "map fst (shapes p) = [Phone, Email, CreditCard, Address, SSN, ZipCode, PoBox, KTP]"
  by (simp add: shapes_def)

lemma detect_sees_text:
  "DatumRegexDetector_detect cr col datum = DatumRegexDetector_detect cr col (PyStr (str datum))"
  by (simp add: DatumRegexDetector_detect_def)

text \<open>
  Claim C3.  \<^verbatim>\<open>DatumRegexDetector.detect\<close> sees the datum through its text \<^verbatim>\<open>str(datum)\<close>
  only, and asks the recognizers for phone numbers, email addresses, credit cards, street
  addresses, SSNs, ZIP codes, PO boxes and KTP numbers in this order.  It returns the
  type of the first recognizer whose pattern matches somewhere in the text, and nothing
  exactly when no pattern matches anywhere in it.  A text that holds a phone-shaped
  substring, with whatever before and after it, is a phone number; so is the sentence
  \<^verbatim>\<open>call me at 555-123-4567 thanks\<close> once the phone pattern matches \<^verbatim>\<open>555-123-4567\<close>.
\<close>

theorem DatumRegexDetector_detect_matches_anywhere:
  "map fst (shapes p) = [Phone, Email, CreditCard, Address, SSN, ZipCode, PoBox, KTP]
   \<and> DatumRegexDetector_detect (crim p) col datum
       = DatumRegexDetector_detect (crim p) col (PyStr (str datum))
   \<and> (DatumRegexDetector_detect (crim p) col datum = Some t \<longleftrightarrow>
        (\<exists>i < length (shapes p). fst (shapes p ! i) = t
           \<and> occurs_in (snd (shapes p ! i)) (str datum)
           \<and> (\<forall>j < i. \<not> occurs_in (snd (shapes p ! j)) (str datum))))
   \<and> (DatumRegexDetector_detect (crim p) col datum = None \<longleftrightarrow>
        list_all (\<lambda>(t, pat). \<not> occurs_in pat (str datum)) (shapes p))
   \<and> (phone p m \<longrightarrow>
        DatumRegexDetector_detect (crim p) col (PyStr (u @ m @ v)) = Some Phone)
   \<and> (phone p ''555-123-4567'' \<longrightarrow>
        DatumRegexDetector_detect (crim p) col (PyStr ''call me at 555-123-4567 thanks'')
          = Some Phone)"
proof -
  have anywhere: "phone p m \<longrightarrow>
        DatumRegexDetector_detect (crim p) col (PyStr (u @ m @ v)) = Some Phone"
    by (simp add: detect_phone_anywhere)
  have "phone p ''555-123-4567'' \<longrightarrow>
        DatumRegexDetector_detect (crim p) col
          (PyStr (''call me at '' @ ''555-123-4567'' @ '' thanks'')) = Some Phone"
    by (intro impI) (rule detect_phone_anywhere)
  then have prose: "phone p ''555-123-4567'' \<longrightarrow>
        DatumRegexDetector_detect (crim p) col (PyStr ''call me at 555-123-4567 thanks'')
          = Some Phone"
    by simp
  show ?thesis
    by (intro conjI)
      (rule shapes_order detect_sees_text detect_crim_Some_iff detect_crim_None_iff
         anywhere prose)+
qed

lemma sample_shapes:
  "phone sample_patterns ''555-123-4567''" "email sample_patterns ''bob@example.com''"
  "zip_code sample_patterns ''90210''"
  by code_simp+

lemma str_90210: "str (PyInt 90210) = ''90210''"
  by simp code_simp

lemma no_phone_in_address:
  "matches_in (phone sample_patterns) ''write to bob@example.com'' = []"
  by code_simp

lemma nothing_before_zip:
  "list_all (\<lambda>(t, pat). matches_in pat ''90210'' = []) (take 5 (shapes sample_patterns))"
  by code_simp

lemma nothing_in_prose:
  "list_all (\<lambda>(t, pat). matches_in pat ''nothing here'' = []) (shapes sample_patterns)"
  by code_simp

text \<open>
  With the sample patterns: the sentence of the specification is a phone number; a phone
  number wins over an email address in the same text; an email address alone is found; the
  integer 90210 is turned into text and found to be a ZIP code; plain prose is nothing.
\<close>

theorem DatumRegexDetector_detect_matches_anywhere_witness:
  "DatumRegexDetector_detect (crim sample_patterns) remarks_column
     (PyStr ''call me at 555-123-4567 thanks'') = Some Phone
   \<and> DatumRegexDetector_detect (crim sample_patterns) remarks_column
     (PyStr ''mail bob@example.com or call 555-123-4567'') = Some Phone
   \<and> DatumRegexDetector_detect (crim sample_patterns) remarks_column
     (PyStr ''write to bob@example.com'') = Some Email
   \<and> DatumRegexDetector_detect (crim sample_patterns) remarks_column
     (PyInt 90210) = Some ZipCode
   \<and> DatumRegexDetector_detect (crim sample_patterns) remarks_column
     (PyStr ''nothing here'') = None"
proof -
  let ?p = sample_patterns
  let ?det = "DatumRegexDetector_detect (crim ?p) remarks_column"
  note prose = DatumRegexDetector_detect_matches_anywhere
    [where p = ?p and col = remarks_column, THEN conjunct2, THEN conjunct2, THEN conjunct2,
       THEN conjunct2, THEN conjunct2]
  note anywhere = DatumRegexDetector_detect_matches_anywhere
    [where p = ?p and col = remarks_column and m = "''555-123-4567''"
       and u = "''mail bob@example.com or call ''" and v = "[]",
     THEN conjunct2, THEN conjunct2, THEN conjunct2, THEN conjunct2, THEN conjunct1]
  note some_email = DatumRegexDetector_detect_matches_anywhere
    [where p = ?p and col = remarks_column and datum = "PyStr ''write to bob@example.com''"
       and t = Email, THEN conjunct2, THEN conjunct2, THEN conjunct1]
  note some_zip = DatumRegexDetector_detect_matches_anywhere
    [where p = ?p and col = remarks_column and datum = "PyInt 90210" and t = ZipCode,
     THEN conjunct2, THEN conjunct2, THEN conjunct1]
  note none = DatumRegexDetector_detect_matches_anywhere
    [where p = ?p and col = remarks_column and datum = "PyStr ''nothing here''",
     THEN conjunct2, THEN conjunct2, THEN conjunct2, THEN conjunct1]
  from prose sample_shapes(1)
  have w1: "?det (PyStr ''call me at 555-123-4567 thanks'') = Some Phone" by simp
  from anywhere sample_shapes(1)
  have w2: "?det (PyStr ''mail bob@example.com or call 555-123-4567'') = Some Phone" by simp
  have "''write to bob@example.com'' = ''write to '' @ ''bob@example.com'' @ []
          \<and> email ?p ''bob@example.com''"
    using sample_shapes(2) by simp
  then have oe: "occurs_in (email ?p) ''write to bob@example.com''"
    unfolding occurs_in_def by (intro exI)
  have ne: "\<not> occurs_in (phone ?p) ''write to bob@example.com''"
    using no_phone_in_address by (simp add: matches_in_occurs [symmetric])
  have "(1::nat) < length (shapes ?p) \<and> fst (shapes ?p ! 1) = Email
          \<and> occurs_in (snd (shapes ?p ! 1)) (str (PyStr ''write to bob@example.com''))
          \<and> (\<forall>j < 1. \<not> occurs_in (snd (shapes ?p ! j)) (str (PyStr ''write to bob@example.com'')))"
    using oe ne by (simp add: shapes_def)
  then have "\<exists>i < length (shapes ?p). fst (shapes ?p ! i) = Email
          \<and> occurs_in (snd (shapes ?p ! i)) (str (PyStr ''write to bob@example.com''))
          \<and> (\<forall>j < i. \<not> occurs_in (snd (shapes ?p ! j)) (str (PyStr ''write to bob@example.com'')))"
    by (intro exI [of _ 1])
  with some_email have w3: "?det (PyStr ''write to bob@example.com'') = Some Email"
    by (rule iffD2)
  have "''90210'' = [] @ ''90210'' @ [] \<and> zip_code ?p ''90210''"
    using sample_shapes(3) by simp
  then have oz: "occurs_in (zip_code ?p) ''90210''"
    unfolding occurs_in_def by (intro exI)
  have nz: "\<forall>j < 5. \<not> occurs_in (snd (shapes ?p ! j)) ''90210''"
  proof (intro allI impI)
    fix j :: nat assume j: "j < 5"
    then have "take 5 (shapes ?p) ! j \<in> set (take 5 (shapes ?p))"
      by (intro nth_mem) (simp add: shapes_def)
    with nothing_before_zip have "matches_in (snd (take 5 (shapes ?p) ! j)) ''90210'' = []"
      by (auto simp: list_all_iff)
    with j show "\<not> occurs_in (snd (shapes ?p ! j)) ''90210''"
      by (simp add: matches_in_occurs [symmetric])
  qed
  have "(5::nat) < length (shapes ?p) \<and> fst (shapes ?p ! 5) = ZipCode
          \<and> occurs_in (snd (shapes ?p ! 5)) (str (PyInt 90210))
          \<and> (\<forall>j < 5. \<not> occurs_in (snd (shapes ?p ! j)) (str (PyInt 90210)))"
    using oz nz by (simp add: shapes_def str_90210 del: str.simps)
  then have "\<exists>i < length (shapes ?p). fst (shapes ?p ! i) = ZipCode
          \<and> occurs_in (snd (shapes ?p ! i)) (str (PyInt 90210))
          \<and> (\<forall>j < i. \<not> occurs_in (snd (shapes ?p ! j)) (str (PyInt 90210)))"
    by (intro exI [of _ 5])
  with some_zip have w4: "?det (PyInt 90210) = Some ZipCode"
    by (rule iffD2)
  have "list_all (\<lambda>(t, pat). \<not> occurs_in pat (str (PyStr ''nothing here''))) (shapes ?p)"
    using nothing_in_prose by (simp add: list_all_iff split_beta matches_in_occurs [symmetric])
  with none have w5: "?det (PyStr ''nothing here'') = None"
    by (rule iffD2)
  from w1 w2 w3 w4 w5 show ?thesis by (intro conjI)
qed

text \<open>
  Claim C9.  The answer of \<^verbatim>\<open>DatumRegexDetector.detect\<close> does not depend on the column it
  is given: the parameter is accepted and never read.
\<close>

theorem DatumRegexDetector_detect_ignores_column:
  "DatumRegexDetector_detect cr c1 datum = DatumRegexDetector_detect cr c2 datum"
  by (simp add: DatumRegexDetector_detect_def)

section \<open>The scan drivers\<close>

subsection \<open>The detector loop in closed form\<close>

lemma tried_Nil [simp]: "tried [] = []" "verdict_of [] = NoMatch"
  by (simp_all add: tried_def verdict_of_def)

lemma tried_Cons:
  "tried ((n, a) # as) = (if a = Inr None then n # tried as else [n])"
  by (simp add: tried_def passes_def)

lemma verdict_of_Cons:
  "verdict_of ((n, a) # as) =
     (case a of Inl e \<Rightarrow> Fault e | Inr None \<Rightarrow> verdict_of as | Inr (Some t) \<Rightarrow> Match n t)"
  by (simp add: verdict_of_def passes_def split: sum.splits option.splits)

lemma metadata_detectors_closed:
  "metadata_detectors dets col (sn, w) =
     (let w1 = w\<lparr>detect_calls :=
                   detect_calls w @ map (\<lambda>n. MetadataCall n col) (tried (md_answers dets col))\<rparr>
      in case verdict_of (md_answers dets col) of
           NoMatch \<Rightarrow> Inr (sn, w1)
         | Fault e \<Rightarrow> Inl (e, w1)
         | Match n t \<Rightarrow>
             (case set_column_pii_type (the_catalog w1) col t n of
                Inl e \<Rightarrow> Inl (e, w1)
              | Inr cat \<Rightarrow> Inr (Suc sn, w1\<lparr>the_catalog := cat\<rparr>)))"
proof (induction dets arbitrary: w)
  case Nil
  then show ?case by (simp add: md_answers_def)
next
  case (Cons d dets)
  show ?case
  proof (cases "md_detect d col")
    case (Inl e)
    then show ?thesis by (simp add: md_answers_def tried_Cons verdict_of_Cons)
  next
    case (Inr r)
    show ?thesis
    proof (cases r)
      case None
      with Inr show ?thesis
        using Cons.IH [of "w\<lparr>detect_calls := detect_calls w @ [MetadataCall (md_name d) col]\<rparr>"]
        by (simp add: md_answers_def tried_Cons verdict_of_Cons Let_def)
    next
      case (Some t)
      with Inr show ?thesis by (simp add: md_answers_def tried_Cons verdict_of_Cons)
    qed
  qed
qed

lemma metadata_columns_append:
  "metadata_columns dets (xs @ ys) st =
     (case metadata_columns dets xs st of Inl ew \<Rightarrow> Inl ew | Inr st' \<Rightarrow> metadata_columns dets ys st')"
proof (induction xs arbitrary: st)
  case Nil
  obtain cnt sn w where "st = (cnt, sn, w)" by (cases st)
  then show ?case by simp
next
  case (Cons x xs)
  obtain s t c where x: "x = (s, t, c)" by (cases x)
  obtain cnt sn w where st: "st = (cnt, sn, w)" by (cases st)
  show ?case
    by (simp add: x st Let_def Cons.IH split: sum.splits prod.splits)
qed

lemma set_column_pii_type_Inr:
  "set_column_pii_type cat col t n = Inr cat' \<longleftrightarrow>
     fault cat (writes cat) (col, t, n) = None \<and> cat' = cat\<lparr>writes := writes cat @ [(col, t, n)]\<rparr>"
  by (auto simp: set_column_pii_type_def split: option.splits)

lemma set_column_pii_type_Inl:
  "set_column_pii_type cat col t n = Inl e \<longleftrightarrow> fault cat (writes cat) (col, t, n) = Some e"
  by (auto simp: set_column_pii_type_def split: option.splits)

lemma metadata_row_Inr:
  "metadata_detectors dets col (sn, w) = Inr (sn', w') \<Longrightarrow>
     sn' = sn + length (md_label dets col)
     \<and> the_catalog w' = (the_catalog w)\<lparr>writes := writes (the_catalog w) @ md_label dets col\<rparr>
     \<and> detect_calls w' = detect_calls w @ map (\<lambda>n. MetadataCall n col) (tried (md_answers dets col))
     \<and> LOGGER w' = LOGGER w \<and> scan_logger w' = scan_logger w \<and> data_logger w' = data_logger w
     \<and> verdict_of (md_answers dets col) \<noteq> Fault e"
  unfolding metadata_detectors_closed md_label_def
  by (auto simp: Let_def set_column_pii_type_Inr split: verdict.splits sum.splits)

lemma metadata_columns_Inr:
  "metadata_columns dets g (cnt, sn, w) = Inr (cnt', sn', w') \<Longrightarrow>
     cnt' = cnt + length g
     \<and> sn' = sn + length (md_labels dets g)
     \<and> the_catalog w' = (the_catalog w)\<lparr>writes := writes (the_catalog w) @ md_labels dets g\<rparr>
     \<and> detect_calls w' = detect_calls w @ md_calls dets g
     \<and> LOGGER w' = LOGGER w @ md_scanning g
     \<and> scan_logger w' = scan_logger w \<and> data_logger w' = data_logger w"
proof (induction g arbitrary: cnt sn w)
  case Nil
  then show ?case by (simp add: md_labels_def md_calls_def md_scanning_def)
next
  case (Cons x g)
  obtain s t c where x: "x = (s, t, c)" by (cases x)
  let ?w1 = "w\<lparr>LOGGER := LOGGER w @ [ScanningColumn (fqdn c)]\<rparr>"
  from Cons.prems obtain sn2 w2 where
    row: "metadata_detectors dets c (sn, ?w1) = Inr (sn2, w2)"
    and rest: "metadata_columns dets g (Suc cnt, sn2, w2) = Inr (cnt', sn', w')"
    by (auto simp: x Let_def split: sum.splits)
  note r = metadata_row_Inr [OF row]
  note i = Cons.IH [OF rest]
  show ?case
    using r i by (simp add: x md_labels_def md_calls_def md_scanning_def)
qed

subsection \<open>Counts of a metadata scan\<close>

lemma verdict_of_NoMatch_iff: "verdict_of as = NoMatch \<longleftrightarrow> list_all passes as"
proof (induction as)
  case Nil
  then show ?case by simp
next
  case (Cons na as)
  obtain n a where "na = (n, a)" by (cases na)
  with Cons show ?case
    by (auto simp: verdict_of_Cons passes_def split: sum.splits option.splits)
qed

lemma matched_Nil [simp]: "\<not> matched []"
  by (simp add: matched_def)

lemma matched_Cons:
  "matched ((n, a) # as) =
     ((case a of Inl e \<Rightarrow> False | Inr None \<Rightarrow> False | Inr (Some t) \<Rightarrow> True) \<or> matched as)"
  by (simp add: matched_def)

lemma passes_not_matched: "list_all passes as \<Longrightarrow> \<not> matched as"
proof (induction as)
  case Nil
  then show ?case by simp
next
  case (Cons na as)
  obtain n a where "na = (n, a)" by (cases na)
  with Cons show ?case
    by (auto simp: matched_Cons passes_def)
qed

lemma verdict_of_Match_matched: "verdict_of as = Match n t \<Longrightarrow> matched as"
proof (induction as)
  case Nil
  then show ?case by simp
next
  case (Cons na as)
  obtain m a where "na = (m, a)" by (cases na)
  with Cons show ?case
    by (auto simp: verdict_of_Cons matched_Cons split: sum.splits option.splits)
qed






lemma detect_ssn_column: "ColumnNameRegexDetector_detect ssn_column = Some SSN"
  by code_simp

lemma detect_id_column: "ColumnNameRegexDetector_detect id_column = None"
  by code_simp

lemma staff_answers:
  "md_answers [ColumnNameRegexDetector] ssn_column = [(''ColumnNameRegexDetector'', Inr (Some SSN))]"
  "md_answers [ColumnNameRegexDetector] id_column = [(''ColumnNameRegexDetector'', Inr None)]"
  by (simp_all add: md_answers_def ColumnNameRegexDetector_def detect_ssn_column detect_id_column)


subsection \<open>Counts of a data scan\<close>

lemma datum_detectors_closed:
  "datum_detectors dets col val (sn, w) =
     (let w1 = w\<lparr>detect_calls :=
                   detect_calls w @ map (\<lambda>n. DatumCall n col val) (tried (dd_answers dets col val))\<rparr>
      in case verdict_of (dd_answers dets col val) of
           NoMatch \<Rightarrow> Inr (sn, w1)
         | Fault e \<Rightarrow> Inl (e, w1)
         | Match n t \<Rightarrow>
             (case set_column_pii_type (the_catalog w1) col t n of
                Inl e \<Rightarrow> Inl (e, w1)
              | Inr cat \<Rightarrow>
                  Inr (Suc sn,
                       w1\<lparr>the_catalog := cat,
                          LOGGER := LOGGER w1 @ [ColumnHas (fqdn col) t],
                          scan_logger := scan_logger w1 @ [DeepScan (fqdn col) t],
                          data_logger := data_logger w1 @ [DeepScanData (fqdn col) val t]\<rparr>)))"
proof (induction dets arbitrary: w)
  case Nil
  then show ?case by (simp add: dd_answers_def)
next
  case (Cons d dets)
  show ?case
  proof (cases "dd_detect d col val")
    case (Inl e)
    then show ?thesis by (simp add: dd_answers_def tried_Cons verdict_of_Cons)
  next
    case (Inr r)
    show ?thesis
    proof (cases r)
      case None
      with Inr show ?thesis
        using Cons.IH [of "w\<lparr>detect_calls := detect_calls w @ [DatumCall (dd_name d) col val]\<rparr>"]
        by (simp add: dd_answers_def tried_Cons verdict_of_Cons Let_def)
    next
      case (Some t)
      with Inr show ?thesis by (simp add: dd_answers_def tried_Cons verdict_of_Cons)
    qed
  qed
qed

lemma datum_items_append:
  "datum_items dets (xs @ ys) st =
     (case datum_items dets xs st of Inl ew \<Rightarrow> Inl ew | Inr st' \<Rightarrow> datum_items dets ys st')"
proof (induction xs arbitrary: st)
  case Nil
  obtain cnt sn w where "st = (cnt, sn, w)" by (cases st)
  then show ?case by simp
next
  case (Cons x xs)
  obtain s t c v where x: "x = (s, t, c, v)" by (cases x)
  obtain cnt sn w where st: "st = (cnt, sn, w)" by (cases st)
  show ?case
    by (simp add: x st Let_def Cons.IH split: sum.splits prod.splits)
qed

lemma datum_row_Inr:
  assumes "datum_detectors dets col val (sn, w) = Inr (sn', w')" and "val \<noteq> PyNone"
  shows "sn' = sn + length (dd_label dets col val)
     \<and> the_catalog w' = (the_catalog w)\<lparr>writes := writes (the_catalog w) @ dd_label dets col val\<rparr>
     \<and> detect_calls w' = detect_calls w @ dd_call dets col val
     \<and> LOGGER w' = LOGGER w @ map (\<lambda>(c, ty, n). ColumnHas (fqdn c) ty) (dd_label dets col val)
     \<and> scan_logger w' = scan_logger w @ map (\<lambda>(c, ty, n). DeepScan (fqdn c) ty) (dd_label dets col val)
     \<and> data_logger w' =
         data_logger w @ map (\<lambda>(c, ty, n). DeepScanData (fqdn c) val ty) (dd_label dets col val)
     \<and> verdict_of (dd_answers dets col val) \<noteq> Fault e"
  using assms unfolding datum_detectors_closed dd_label_def dd_call_def
  by (auto simp: Let_def set_column_pii_type_Inr split: verdict.splits sum.splits)

lemma datum_items_Inr:
  "datum_items dets g (cnt, sn, w) = Inr (cnt', sn', w') \<Longrightarrow>
     cnt' = cnt + length g
     \<and> sn' = sn + length (dd_labels dets g)
     \<and> the_catalog w' = (the_catalog w)\<lparr>writes := writes (the_catalog w) @ dd_labels dets g\<rparr>
     \<and> detect_calls w' = detect_calls w @ dd_calls dets g
     \<and> LOGGER w' = LOGGER w @ dd_logger dets g
     \<and> scan_logger w' = scan_logger w @ dd_scan_records dets g
     \<and> data_logger w' = data_logger w @ dd_data_records dets g
     \<and> list_all (\<lambda>(s, t, c, v). v \<noteq> PyNone \<longrightarrow> (\<forall>e. verdict_of (dd_answers dets c v) \<noteq> Fault e)) g"
proof (induction g arbitrary: cnt sn w)
  case Nil
  then show ?case
    by (simp add: dd_labels_def dd_calls_def dd_logger_def dd_scan_records_def dd_data_records_def)
next
  case (Cons x g)
  obtain s t c v where x: "x = (s, t, c, v)" by (cases x)
  let ?w1 = "w\<lparr>LOGGER := LOGGER w @ [ScanningColumn (fqdn c)]\<rparr>"
  show ?case
  proof (cases "v = PyNone")
    case True
    with Cons.prems have rest: "datum_items dets g (Suc cnt, sn, ?w1) = Inr (cnt', sn', w')"
      by (simp add: x Let_def)
    from Cons.IH [OF rest] True show ?thesis
      by (simp add: x dd_labels_def dd_calls_def dd_logger_def dd_scan_records_def
            dd_data_records_def dd_label_def dd_call_def)
  next
    case False
    with Cons.prems obtain sn2 w2 where
      row: "datum_detectors dets c v (sn, ?w1) = Inr (sn2, w2)"
      and rest: "datum_items dets g (Suc cnt, sn2, w2) = Inr (cnt', sn', w')"
      by (auto simp: x Let_def split: sum.splits)
    note r = datum_row_Inr [OF row False]
    note i = Cons.IH [OF rest]
    show ?thesis
      using r i
      by (simp add: x dd_labels_def dd_calls_def dd_logger_def dd_scan_records_def
            dd_data_records_def)
  qed
qed

lemma dd_label_length:
  "v \<noteq> PyNone \<longrightarrow> (\<forall>e. verdict_of (dd_answers dets c v) \<noteq> Fault e) \<Longrightarrow>
     length (dd_label dets c v) = (if v \<noteq> PyNone \<and> matched (dd_answers dets c v) then 1 else 0)"
  using verdict_of_NoMatch_iff [of "dd_answers dets c v"] passes_not_matched [of "dd_answers dets c v"]
    verdict_of_Match_matched [of "dd_answers dets c v"]
  by (cases "verdict_of (dd_answers dets c v)") (auto simp: dd_label_def)

lemma dd_labels_length:
  "list_all (\<lambda>(s, t, c, v). v \<noteq> PyNone \<longrightarrow> (\<forall>e. verdict_of (dd_answers dets c v) \<noteq> Fault e)) g \<Longrightarrow>
     length (dd_labels dets g) = present_matches dets g"
proof (induction g)
  case Nil
  then show ?case by (simp add: dd_labels_def present_matches_def)
next
  case (Cons x g)
  obtain s t c v where x: "x = (s, t, c, v)" by (cases x)
  from Cons.prems have "v \<noteq> PyNone \<longrightarrow> (\<forall>e. verdict_of (dd_answers dets c v) \<noteq> Fault e)"
    by (simp add: x)
  from dd_label_length [OF this] Cons show ?case
    by (simp add: x dd_labels_def present_matches_def)
qed

lemma dd_data_records_length: "length (dd_data_records dets g) = length (dd_labels dets g)"
  by (induction g) (auto simp: dd_data_records_def dd_labels_def)

lemma dd_scan_records_strip: "dd_scan_records dets g = map strip_value (dd_data_records dets g)"
  by (induction g) (auto simp: dd_data_records_def dd_scan_records_def)

lemma dd_label_column: "wr \<in> set (dd_label dets c v) \<Longrightarrow> fst wr = c \<and> v \<noteq> PyNone"
  by (auto simp: dd_label_def split: if_splits verdict.splits)

lemma dd_data_records_values:
  "list_all (\<lambda>r. case r of DeepScanData f v ty \<Rightarrow>
               list_ex (\<lambda>(s, t, c, v'). fqdn c = f \<and> v' = v \<and> v \<noteq> PyNone) g)
            (dd_data_records dets g)"
  unfolding list_all_iff list_ex_iff dd_data_records_def
  by (force dest!: dd_label_column split: data_record.splits)

lemma present_matches_le:
  "present_matches dets g \<le> length (filter (\<lambda>(s, t, c, v). v \<noteq> PyNone) g)"
  unfolding present_matches_def
  by (induction g) auto

text \<open>
  Claim C6, as amended.  A run of \<^verbatim>\<open>data_scan\<close> that returns, over an enumeration of \<open>N\<close>
  items of which \<open>J\<close> have a value other than \<^verbatim>\<open>None\<close> and are matched by some detector,
  reports \<open>N\<close> processed and \<open>J\<close> labeled items; the catalog receives exactly \<open>J\<close> writes,
  \<^verbatim>\<open>data_logger\<close> exactly \<open>J\<close> records, each with the sampled value of an enumerated item of
  its column, and \<^verbatim>\<open>scan_logger\<close> the same \<open>J\<close> records without the values.
\<close>

theorem data_scan_counts:
  assumes "data_scan filter_text_columns w detectors work_generator generator sample_size
             = Returned w'"
  shows "reported (Returned w') = Some (length generator, present_matches detectors generator)
         \<and> present_matches detectors generator
             \<le> length (filter (\<lambda>(s, t, c, v). v \<noteq> PyNone) generator)
         \<and> writes (the_catalog w') = writes (the_catalog w) @ dd_labels detectors generator
         \<and> length (dd_labels detectors generator) = present_matches detectors generator
         \<and> data_logger w' = data_logger w @ dd_data_records detectors generator
         \<and> length (dd_data_records detectors generator) = present_matches detectors generator
         \<and> list_all (\<lambda>r. case r of DeepScanData f v ty \<Rightarrow>
               list_ex (\<lambda>(s, t, c, v'). fqdn c = f \<and> v' = v \<and> v \<noteq> PyNone) generator)
             (dd_data_records detectors generator)
         \<and> scan_logger w' = scan_logger w @ map strip_value (dd_data_records detectors generator)"
proof -
  from assms obtain cnt sn w2 where
    loop: "datum_items detectors generator (0, 0, w) = Inr (cnt, sn, w2)"
    and w': "w' = w2\<lparr>LOGGER := LOGGER w2 @ [ColumnsScanned cnt sn]\<rparr>"
    by (auto simp: data_scan_def tqdm_def Let_def split: sum.splits prod.splits)
  note facts = datum_items_Inr [OF loop]
  from facts have k: "length (dd_labels detectors generator) = present_matches detectors generator"
    by (intro dd_labels_length) simp
  have "reported (Returned w') = Some (cnt, sn)"
    by (simp add: reported_def w')
  with facts k have r: "reported (Returned w')
                          = Some (length generator, present_matches detectors generator)"
    by simp
  from facts have l: "writes (the_catalog w') = writes (the_catalog w) @ dd_labels detectors generator"
    "data_logger w' = data_logger w @ dd_data_records detectors generator"
    "scan_logger w' = scan_logger w @ map strip_value (dd_data_records detectors generator)"
    by (simp_all add: w' dd_scan_records_strip)
  from k have d: "length (dd_data_records detectors generator)
                    = present_matches detectors generator"
    by (simp add: dd_data_records_length)
  show ?thesis
    using r present_matches_le k l d dd_data_records_values
    by (intro conjI)
qed

lemma detect_call_me:
  "DatumRegexDetector_detect (crim sample_patterns) remarks_column (PyStr ''call me at 555-123-4567 thanks'')
     = Some Phone"
  using detect_phone_anywhere [OF sample_shapes(1), of remarks_column "''call me at ''" "'' thanks''"]
  by simp

lemma detect_nothing_here:
  "DatumRegexDetector_detect (crim sample_patterns) remarks_column (PyStr ''nothing here'') = None"
  by code_simp

lemma call_answers:
  "dd_answers [DatumRegexDetector (crim sample_patterns)] remarks_column
     (PyStr ''call me at 555-123-4567 thanks'') = [(''DatumRegexDetector'', Inr (Some Phone))]"
  "dd_answers [DatumRegexDetector (crim sample_patterns)] remarks_column (PyStr ''nothing here'')
     = [(''DatumRegexDetector'', Inr None)]"
  by (simp_all add: dd_answers_def DatumRegexDetector_def detect_call_me detect_nothing_here)

text \<open>
  Three sampled values of one column, a phone number, \<^verbatim>\<open>None\<close> and plain prose: three
  items processed, one labeled, one write and one record on each stream.
\<close>

theorem data_scan_counts_witness:
  "reported (data_scan (\<lambda>cols. cols) fresh_world [DatumRegexDetector (crim sample_patterns)] [] call_samples 10)
     = Some (3, 1)
   \<and> writes (the_catalog (world_of
        (data_scan (\<lambda>cols. cols) fresh_world [DatumRegexDetector (crim sample_patterns)] [] call_samples 10)))
     = [(remarks_column, Phone, ''DatumRegexDetector'')]
   \<and> data_logger (world_of
        (data_scan (\<lambda>cols. cols) fresh_world [DatumRegexDetector (crim sample_patterns)] [] call_samples 10))
     = [DeepScanData ''crm.calls.remarks'' (PyStr ''call me at 555-123-4567 thanks'') Phone]
   \<and> scan_logger (world_of
        (data_scan (\<lambda>cols. cols) fresh_world [DatumRegexDetector (crim sample_patterns)] [] call_samples 10))
     = [DeepScan ''crm.calls.remarks'' Phone]"
proof -
  let ?run = "data_scan (\<lambda>cols. cols) fresh_world [DatumRegexDetector (crim sample_patterns)] [] call_samples 10"
  have "raised ?run = None"
    by (simp add: data_scan_def tqdm_def call_samples_def DatumRegexDetector_def
          detect_call_me detect_nothing_here set_column_pii_type_def fresh_world_def raised_def)
  then obtain w' where run: "?run = Returned w'"
    by (cases ?run) (simp_all add: raised_def)
  have m: "present_matches [DatumRegexDetector (crim sample_patterns)] call_samples = 1"
    "length call_samples = 3"
    by (simp_all add: present_matches_def call_samples_def call_answers matched_Cons)
  have l: "dd_labels [DatumRegexDetector (crim sample_patterns)] call_samples
             = [(remarks_column, Phone, ''DatumRegexDetector'')]"
    by (simp add: dd_labels_def dd_label_def call_samples_def call_answers verdict_of_Cons)
  have d: "dd_data_records [DatumRegexDetector (crim sample_patterns)] call_samples
             = [DeepScanData ''crm.calls.remarks'' (PyStr ''call me at 555-123-4567 thanks'') Phone]"
    by (simp add: dd_data_records_def dd_label_def call_samples_def call_answers verdict_of_Cons)
       (simp add: remarks_column_def)
  have f: "writes (the_catalog fresh_world) = []" "data_logger fresh_world = []"
    "scan_logger fresh_world = []"
    by (simp_all add: fresh_world_def)
  from data_scan_counts [OF run] show ?thesis
    unfolding run by (simp add: world_of_def m l d f)
qed

lemma empty_text_answers:
  "dd_answers [ColumnNameDatumDetector] ssn_column (PyStr [])
     = [(''ColumnNameDatumDetector'', Inr (Some SSN))]"
  by (simp add: dd_answers_def ColumnNameDatumDetector_def detect_ssn_column)

text \<open>
  With ``non-empty'' read as in the specification the statement fails: an item whose value
  is the empty text is none of the non-empty ones, yet a detector that goes by the column
  matches it, and the scan labels it and writes to the catalog.
\<close>

theorem data_scan_labels_empty_text:
  "nonempty_matches [ColumnNameDatumDetector] [(''hr'', ''staff'', ssn_column, PyStr [])] = 0
   \<and> reported (data_scan (\<lambda>cols. cols) fresh_world [ColumnNameDatumDetector] []
        [(''hr'', ''staff'', ssn_column, PyStr [])] 10) = Some (1, 1)
   \<and> writes (the_catalog (world_of (data_scan (\<lambda>cols. cols) fresh_world [ColumnNameDatumDetector] []
        [(''hr'', ''staff'', ssn_column, PyStr [])] 10)))
      = [(ssn_column, SSN, ''ColumnNameDatumDetector'')]"
  by (simp add: nonempty_matches_def empty_or_absent_def data_scan_def tqdm_def
        ColumnNameDatumDetector_def detect_ssn_column set_column_pii_type_def fresh_world_def
        reported_def world_of_def)

subsection \<open>Scans that raise\<close>

lemma metadata_row_Inl:
  "metadata_detectors dets c (sn, w) = Inl (e, w') \<longleftrightarrow>
     md_item_fault (the_catalog w) dets c = Some e
     \<and> w' = w\<lparr>detect_calls :=
                 detect_calls w @ map (\<lambda>n. MetadataCall n c) (tried (md_answers dets c))\<rparr>"
  unfolding metadata_detectors_closed md_item_fault_def
  by (auto simp: Let_def set_column_pii_type_def split: verdict.splits option.splits)

lemma metadata_columns_Inl:
  "metadata_columns dets g (cnt, sn, w) = Inl (e, w') \<Longrightarrow>
     \<exists>pre s t c post cnt1 sn1 w1.
        g = pre @ (s, t, c) # post
        \<and> metadata_columns dets pre (cnt, sn, w) = Inr (cnt1, sn1, w1)
        \<and> md_item_fault (the_catalog w1) dets c = Some e
        \<and> w' = w1\<lparr>LOGGER := LOGGER w1 @ [ScanningColumn (fqdn c)],
                  detect_calls :=
                    detect_calls w1 @ map (\<lambda>n. MetadataCall n c) (tried (md_answers dets c))\<rparr>"
proof (induction g arbitrary: cnt sn w)
  case Nil
  then show ?case by simp
next
  case (Cons x g)
  obtain s t c where x: "x = (s, t, c)" by (cases x)
  let ?w1 = "w\<lparr>LOGGER := LOGGER w @ [ScanningColumn (fqdn c)]\<rparr>"
  show ?case
  proof (cases "metadata_detectors dets c (sn, ?w1)")
    case (Inl ew)
    with Cons.prems have "metadata_detectors dets c (sn, ?w1) = Inl (e, w')"
      by (simp add: x Let_def)
    then have "md_item_fault (the_catalog w) dets c = Some e"
      and "w' = w\<lparr>LOGGER := LOGGER w @ [ScanningColumn (fqdn c)],
                  detect_calls :=
                    detect_calls w @ map (\<lambda>n. MetadataCall n c) (tried (md_answers dets c))\<rparr>"
      by (simp_all add: metadata_row_Inl)
    then have "x # g = [] @ (s, t, c) # g
        \<and> metadata_columns dets [] (cnt, sn, w) = Inr (cnt, sn, w)
        \<and> md_item_fault (the_catalog w) dets c = Some e
        \<and> w' = w\<lparr>LOGGER := LOGGER w @ [ScanningColumn (fqdn c)],
                  detect_calls :=
                    detect_calls w @ map (\<lambda>n. MetadataCall n c) (tried (md_answers dets c))\<rparr>"
      by (simp add: x)
    then show ?thesis by (intro exI)
  next
    case (Inr r)
    obtain sn2 w2 where r: "r = (sn2, w2)" by (cases r)
    with Inr Cons.prems have "metadata_columns dets g (Suc cnt, sn2, w2) = Inl (e, w')"
      by (simp add: x Let_def)
    from Cons.IH [OF this] obtain pre s' t' c' post cnt1 sn1 w1 where
      g: "g = pre @ (s', t', c') # post"
      and p: "metadata_columns dets pre (Suc cnt, sn2, w2) = Inr (cnt1, sn1, w1)"
      and f: "md_item_fault (the_catalog w1) dets c' = Some e"
      and w': "w' = w1\<lparr>LOGGER := LOGGER w1 @ [ScanningColumn (fqdn c')],
                  detect_calls :=
                    detect_calls w1 @ map (\<lambda>n. MetadataCall n c') (tried (md_answers dets c'))\<rparr>"
      by (elim exE conjE)
    from Inr r p have "metadata_columns dets (x # pre) (cnt, sn, w) = Inr (cnt1, sn1, w1)"
      by (simp add: x Let_def)
    with g f w' have "x # g = (x # pre) @ (s', t', c') # post
        \<and> metadata_columns dets (x # pre) (cnt, sn, w) = Inr (cnt1, sn1, w1)
        \<and> md_item_fault (the_catalog w1) dets c' = Some e
        \<and> w' = w1\<lparr>LOGGER := LOGGER w1 @ [ScanningColumn (fqdn c')],
                  detect_calls :=
                    detect_calls w1 @ map (\<lambda>n. MetadataCall n c') (tried (md_answers dets c'))\<rparr>"
      by simp
    then show ?thesis by (intro exI)
  qed
qed

lemma datum_row_Inl:
  "v \<noteq> PyNone \<Longrightarrow>
   datum_detectors dets c v (sn, w) = Inl (e, w') \<longleftrightarrow>
     dd_item_fault (the_catalog w) dets c v = Some e
     \<and> w' = w\<lparr>detect_calls := detect_calls w @ dd_call dets c v\<rparr>"
  unfolding datum_detectors_closed dd_item_fault_def dd_call_def
  by (auto simp: Let_def set_column_pii_type_def split: verdict.splits option.splits)

lemma datum_items_Inl:
  "datum_items dets g (cnt, sn, w) = Inl (e, w') \<Longrightarrow>
     \<exists>pre s t c v post cnt1 sn1 w1.
        g = pre @ (s, t, c, v) # post
        \<and> datum_items dets pre (cnt, sn, w) = Inr (cnt1, sn1, w1)
        \<and> dd_item_fault (the_catalog w1) dets c v = Some e
        \<and> w' = w1\<lparr>LOGGER := LOGGER w1 @ [ScanningColumn (fqdn c)],
                  detect_calls := detect_calls w1 @ dd_call dets c v\<rparr>"
proof (induction g arbitrary: cnt sn w)
  case Nil
  then show ?case by simp
next
  case (Cons x g)
  obtain s t c v where x: "x = (s, t, c, v)" by (cases x)
  let ?w1 = "w\<lparr>LOGGER := LOGGER w @ [ScanningColumn (fqdn c)]\<rparr>"
  have step: "\<exists>pre s t c v post cnt1 sn1 w1.
        x # g = pre @ (s, t, c, v) # post
        \<and> datum_items dets pre (cnt, sn, w) = Inr (cnt1, sn1, w1)
        \<and> dd_item_fault (the_catalog w1) dets c v = Some e
        \<and> w' = w1\<lparr>LOGGER := LOGGER w1 @ [ScanningColumn (fqdn c)],
                  detect_calls := detect_calls w1 @ dd_call dets c v\<rparr>"
    if rest: "datum_items dets g (Suc cnt, sn2, w2) = Inl (e, w')"
      and head: "datum_items dets [x] (cnt, sn, w) = Inr (Suc cnt, sn2, w2)" for sn2 w2
  proof -
    from Cons.IH [OF rest] obtain pre s' t' c' v' post cnt1 sn1 w1 where
      g: "g = pre @ (s', t', c', v') # post"
      and p: "datum_items dets pre (Suc cnt, sn2, w2) = Inr (cnt1, sn1, w1)"
      and f: "dd_item_fault (the_catalog w1) dets c' v' = Some e"
      and w': "w' = w1\<lparr>LOGGER := LOGGER w1 @ [ScanningColumn (fqdn c')],
                  detect_calls := detect_calls w1 @ dd_call dets c' v'\<rparr>"
      by (elim exE conjE)
    from head p have "datum_items dets (x # pre) (cnt, sn, w) = Inr (cnt1, sn1, w1)"
      using datum_items_append [of dets "[x]" pre "(cnt, sn, w)"] by simp
    with g f w' have "x # g = (x # pre) @ (s', t', c', v') # post
        \<and> datum_items dets (x # pre) (cnt, sn, w) = Inr (cnt1, sn1, w1)
        \<and> dd_item_fault (the_catalog w1) dets c' v' = Some e
        \<and> w' = w1\<lparr>LOGGER := LOGGER w1 @ [ScanningColumn (fqdn c')],
                  detect_calls := detect_calls w1 @ dd_call dets c' v'\<rparr>"
      by simp
    then show ?thesis by (intro exI)
  qed
  show ?case
  proof (cases "v = PyNone")
    case True
    with Cons.prems have "datum_items dets g (Suc cnt, sn, ?w1) = Inl (e, w')"
      by (simp add: x Let_def)
    moreover from True have "datum_items dets [x] (cnt, sn, w) = Inr (Suc cnt, sn, ?w1)"
      by (simp add: x Let_def)
    ultimately show ?thesis by (rule step)
  next
    case False
    show ?thesis
    proof (cases "datum_detectors dets c v (sn, ?w1)")
      case (Inl ew)
      with Cons.prems False have "datum_detectors dets c v (sn, ?w1) = Inl (e, w')"
        by (simp add: x Let_def)
      with False have "dd_item_fault (the_catalog w) dets c v = Some e"
        and "w' = w\<lparr>LOGGER := LOGGER w @ [ScanningColumn (fqdn c)],
                    detect_calls := detect_calls w @ dd_call dets c v\<rparr>"
        by (simp_all add: datum_row_Inl)
      then have "x # g = [] @ (s, t, c, v) # g
          \<and> datum_items dets [] (cnt, sn, w) = Inr (cnt, sn, w)
          \<and> dd_item_fault (the_catalog w) dets c v = Some e
          \<and> w' = w\<lparr>LOGGER := LOGGER w @ [ScanningColumn (fqdn c)],
                    detect_calls := detect_calls w @ dd_call dets c v\<rparr>"
        by (simp add: x)
      then show ?thesis by (intro exI)
    next
      case (Inr r)
      obtain sn2 w2 where r: "r = (sn2, w2)" by (cases r)
      with Inr Cons.prems False have "datum_items dets g (Suc cnt, sn2, w2) = Inl (e, w')"
        by (simp add: x Let_def)
      moreover from Inr r False have "datum_items dets [x] (cnt, sn, w) = Inr (Suc cnt, sn2, w2)"
        by (simp add: x Let_def)
      ultimately show ?thesis by (rule step)
    qed
  qed
qed

lemma metadata_scan_Returned_iff:
  "metadata_scan w dets wg g = Returned w1 \<longleftrightarrow>
     (\<exists>cnt sn w2. metadata_columns dets g (0, 0, w) = Inr (cnt, sn, w2)
        \<and> w1 = w2\<lparr>LOGGER := LOGGER w2 @ [ColumnsScanned cnt sn]\<rparr>)"
  by (auto simp: metadata_scan_def tqdm_def split: sum.splits prod.splits)

lemma metadata_scan_Raised_iff:
  "metadata_scan w dets wg g = Raised e w' \<longleftrightarrow> metadata_columns dets g (0, 0, w) = Inl (e, w')"
  by (auto simp: metadata_scan_def tqdm_def split: sum.splits prod.splits)

lemma data_scan_Returned_iff:
  "data_scan ftc w dets wg g n = Returned w1 \<longleftrightarrow>
     (\<exists>cnt sn w2. datum_items dets g (0, 0, w) = Inr (cnt, sn, w2)
        \<and> w1 = w2\<lparr>LOGGER := LOGGER w2 @ [ColumnsScanned cnt sn]\<rparr>)"
  by (auto simp: data_scan_def tqdm_def Let_def split: sum.splits prod.splits)

lemma data_scan_Raised_iff:
  "data_scan ftc w dets wg g n = Raised e w' \<longleftrightarrow> datum_items dets g (0, 0, w) = Inl (e, w')"
  by (auto simp: data_scan_def tqdm_def Let_def split: sum.splits prod.splits)

lemma metadata_scan_aborts:
  assumes "metadata_scan w dets wg pre = Returned w1"
    and "md_item_fault (the_catalog w1) dets c = Some e"
  shows "\<exists>w'. metadata_scan w dets wg (pre @ (s, t, c) # post) = Raised e w'
           \<and> the_catalog w' = the_catalog w1
           \<and> detect_calls w' =
               detect_calls w1 @ map (\<lambda>n. MetadataCall n c) (tried (md_answers dets c))"
proof -
  from assms(1) obtain cnt sn w2 where
    loop: "metadata_columns dets pre (0, 0, w) = Inr (cnt, sn, w2)"
    and w1: "w1 = w2\<lparr>LOGGER := LOGGER w2 @ [ColumnsScanned cnt sn]\<rparr>"
    unfolding metadata_scan_Returned_iff by (elim exE conjE)
  let ?v = "w2\<lparr>LOGGER := LOGGER w2 @ [ScanningColumn (fqdn c)]\<rparr>"
  let ?w' = "?v\<lparr>detect_calls :=
                  detect_calls ?v @ map (\<lambda>n. MetadataCall n c) (tried (md_answers dets c))\<rparr>"
  from assms(2) have "md_item_fault (the_catalog ?v) dets c = Some e"
    by (simp add: w1)
  then have "metadata_detectors dets c (sn, ?v) = Inl (e, ?w')"
    by (simp add: metadata_row_Inl)
  then have "metadata_columns dets ((s, t, c) # post) (cnt, sn, w2) = Inl (e, ?w')"
    by (simp add: Let_def)
  with loop have "metadata_columns dets (pre @ (s, t, c) # post) (0, 0, w) = Inl (e, ?w')"
    by (simp add: metadata_columns_append)
  then have "metadata_scan w dets wg (pre @ (s, t, c) # post) = Raised e ?w'"
    by (simp add: metadata_scan_Raised_iff)
  moreover have "the_catalog ?w' = the_catalog w1"
    "detect_calls ?w' = detect_calls w1 @ map (\<lambda>n. MetadataCall n c) (tried (md_answers dets c))"
    by (simp_all add: w1)
  ultimately show ?thesis by blast
qed

lemma metadata_scan_raises_only_on_fault:
  assumes "metadata_scan w dets wg g = Raised e w'"
  shows "\<exists>pre s t c post w1. g = pre @ (s, t, c) # post
           \<and> metadata_scan w dets wg pre = Returned w1
           \<and> md_item_fault (the_catalog w1) dets c = Some e
           \<and> the_catalog w' = the_catalog w1"
proof -
  from assms have "metadata_columns dets g (0, 0, w) = Inl (e, w')"
    by (simp add: metadata_scan_Raised_iff)
  from metadata_columns_Inl [OF this] obtain pre s t c post cnt1 sn1 w2 where
    g: "g = pre @ (s, t, c) # post"
    and p: "metadata_columns dets pre (0, 0, w) = Inr (cnt1, sn1, w2)"
    and f: "md_item_fault (the_catalog w2) dets c = Some e"
    and w': "w' = w2\<lparr>LOGGER := LOGGER w2 @ [ScanningColumn (fqdn c)],
                  detect_calls :=
                    detect_calls w2 @ map (\<lambda>n. MetadataCall n c) (tried (md_answers dets c))\<rparr>"
    by (elim exE conjE)
  let ?w1 = "w2\<lparr>LOGGER := LOGGER w2 @ [ColumnsScanned cnt1 sn1]\<rparr>"
  from p have "metadata_scan w dets wg pre = Returned ?w1"
    by (simp add: metadata_scan_Returned_iff)
  with g f w' have "g = pre @ (s, t, c) # post
           \<and> metadata_scan w dets wg pre = Returned ?w1
           \<and> md_item_fault (the_catalog ?w1) dets c = Some e
           \<and> the_catalog w' = the_catalog ?w1"
    by simp
  then show ?thesis by (intro exI)
qed

lemma data_scan_aborts:
  assumes "data_scan ftc w dets wg pre n = Returned w1"
    and "dd_item_fault (the_catalog w1) dets c v = Some e"
  shows "\<exists>w'. data_scan ftc w dets wg (pre @ (s, t, c, v) # post) n = Raised e w'
           \<and> the_catalog w' = the_catalog w1
           \<and> scan_logger w' = scan_logger w1 \<and> data_logger w' = data_logger w1
           \<and> detect_calls w' = detect_calls w1 @ dd_call dets c v"
proof -
  from assms(1) obtain cnt sn w2 where
    loop: "datum_items dets pre (0, 0, w) = Inr (cnt, sn, w2)"
    and w1: "w1 = w2\<lparr>LOGGER := LOGGER w2 @ [ColumnsScanned cnt sn]\<rparr>"
    unfolding data_scan_Returned_iff by (elim exE conjE)
  from assms(2) have present: "v \<noteq> PyNone"
    by (auto simp: dd_item_fault_def)
  let ?v = "w2\<lparr>LOGGER := LOGGER w2 @ [ScanningColumn (fqdn c)]\<rparr>"
  let ?w' = "?v\<lparr>detect_calls := detect_calls ?v @ dd_call dets c v\<rparr>"
  from assms(2) have "dd_item_fault (the_catalog ?v) dets c v = Some e"
    by (simp add: w1)
  with present have "datum_detectors dets c v (sn, ?v) = Inl (e, ?w')"
    by (simp add: datum_row_Inl)
  with present have "datum_items dets ((s, t, c, v) # post) (cnt, sn, w2) = Inl (e, ?w')"
    by (simp add: Let_def)
  with loop have "datum_items dets (pre @ (s, t, c, v) # post) (0, 0, w) = Inl (e, ?w')"
    by (simp add: datum_items_append)
  then have "data_scan ftc w dets wg (pre @ (s, t, c, v) # post) n = Raised e ?w'"
    by (simp add: data_scan_Raised_iff)
  moreover have "the_catalog ?w' = the_catalog w1" "scan_logger ?w' = scan_logger w1"
    "data_logger ?w' = data_logger w1"
    "detect_calls ?w' = detect_calls w1 @ dd_call dets c v"
    by (simp_all add: w1)
  ultimately show ?thesis by blast
qed

lemma data_scan_raises_only_on_fault:
  assumes "data_scan ftc w dets wg g n = Raised e w'"
  shows "\<exists>pre s t c v post w1. g = pre @ (s, t, c, v) # post
           \<and> data_scan ftc w dets wg pre n = Returned w1
           \<and> dd_item_fault (the_catalog w1) dets c v = Some e
           \<and> the_catalog w' = the_catalog w1"
proof -
  from assms have "datum_items dets g (0, 0, w) = Inl (e, w')"
    by (simp add: data_scan_Raised_iff)
  from datum_items_Inl [OF this] obtain pre s t c v post cnt1 sn1 w2 where
    g: "g = pre @ (s, t, c, v) # post"
    and p: "datum_items dets pre (0, 0, w) = Inr (cnt1, sn1, w2)"
    and f: "dd_item_fault (the_catalog w2) dets c v = Some e"
    and w': "w' = w2\<lparr>LOGGER := LOGGER w2 @ [ScanningColumn (fqdn c)],
                  detect_calls := detect_calls w2 @ dd_call dets c v\<rparr>"
    by (elim exE conjE)
  let ?w1 = "w2\<lparr>LOGGER := LOGGER w2 @ [ColumnsScanned cnt1 sn1]\<rparr>"
  from p have "data_scan ftc w dets wg pre n = Returned ?w1"
    by (simp add: data_scan_Returned_iff)
  with g f w' have "g = pre @ (s, t, c, v) # post
           \<and> data_scan ftc w dets wg pre n = Returned ?w1
           \<and> dd_item_fault (the_catalog ?w1) dets c v = Some e
           \<and> the_catalog w' = the_catalog ?w1"
    by simp
  then show ?thesis by (intro exI)
qed

lemma metadata_scan_reports_or_raises:
  "(reported (metadata_scan w dets wg g) = None) = (raised (metadata_scan w dets wg g) \<noteq> None)"
  by (simp add: metadata_scan_def tqdm_def reported_def raised_def split: sum.splits prod.splits)

lemma data_scan_reports_or_raises:
  "(reported (data_scan ftc w dets wg g n) = None) = (raised (data_scan ftc w dets wg g n) \<noteq> None)"
  by (simp add: data_scan_def tqdm_def Let_def reported_def raised_def split: sum.splits prod.splits)

text \<open>
  Claim C8.  Neither driver catches an exception.  When the items before some item are
  scanned without fault and that item makes a detector that is called raise, or makes the
  catalog refuse the write, the scan raises that exception; the catalog is as the items
  before left it, and no detector is called for a later item.  A scan raises in no other
  way, and it reports its counts exactly when it does not raise.
\<close>

theorem scans_fail_fast:
  "(metadata_scan w mds wg pre = Returned w1 \<and> md_item_fault (the_catalog w1) mds c = Some e \<longrightarrow>
      (\<exists>w'. metadata_scan w mds wg (pre @ (s, t, c) # post) = Raised e w'
         \<and> the_catalog w' = the_catalog w1
         \<and> detect_calls w' =
             detect_calls w1 @ map (\<lambda>n. MetadataCall n c) (tried (md_answers mds c))))
   \<and> (metadata_scan w mds wg g = Raised x wx \<longrightarrow>
      (\<exists>pre s t c post w1. g = pre @ (s, t, c) # post
         \<and> metadata_scan w mds wg pre = Returned w1
         \<and> md_item_fault (the_catalog w1) mds c = Some x
         \<and> the_catalog wx = the_catalog w1))
   \<and> (reported (metadata_scan w mds wg g) = None) = (raised (metadata_scan w mds wg g) \<noteq> None)
   \<and> (data_scan ftc v dds dwg dpre n = Returned v1 \<and> dd_item_fault (the_catalog v1) dds dc dv = Some de \<longrightarrow>
      (\<exists>v'. data_scan ftc v dds dwg (dpre @ (ds, dt, dc, dv) # dpost) n = Raised de v'
         \<and> the_catalog v' = the_catalog v1
         \<and> scan_logger v' = scan_logger v1 \<and> data_logger v' = data_logger v1
         \<and> detect_calls v' = detect_calls v1 @ dd_call dds dc dv))
   \<and> (data_scan ftc v dds dwg dg n = Raised y vy \<longrightarrow>
      (\<exists>pre s t c val post v1. dg = pre @ (s, t, c, val) # post
         \<and> data_scan ftc v dds dwg pre n = Returned v1
         \<and> dd_item_fault (the_catalog v1) dds c val = Some y
         \<and> the_catalog vy = the_catalog v1))
   \<and> (reported (data_scan ftc v dds dwg dg n) = None) = (raised (data_scan ftc v dds dwg dg n) \<noteq> None)"
  using metadata_scan_aborts [of w mds wg pre w1 c e s t post]
    metadata_scan_raises_only_on_fault [of w mds wg g x wx]
    metadata_scan_reports_or_raises [of w mds wg g]
    data_scan_aborts [of ftc v dds dwg dpre n v1 dc dv de ds dt dpost]
    data_scan_raises_only_on_fault [of ftc v dds dwg dg n y vy]
    data_scan_reports_or_raises [of ftc v dds dwg dg n]
  by (intro conjI impI) blast+

text \<open>
  A metadata scan whose second column makes a detector raise, and a data scan whose catalog
  refuses the second write: both raise, and the first write stays in the catalog.
\<close>

theorem scans_fail_fast_witness:
  "raised (metadata_scan fresh_world [ColumnNameRegexDetector, BrokenDetector]
             staff_columns staff_columns) = Some (PyExc ''TypeError'')
   \<and> writes (the_catalog (world_of (metadata_scan fresh_world
        [ColumnNameRegexDetector, BrokenDetector] staff_columns staff_columns)))
      = [(ssn_column, SSN, ''ColumnNameRegexDetector'')]
   \<and> raised (data_scan (\<lambda>cols. cols) one_write_world [DatumRegexDetector (crim sample_patterns)] []
        [phone_row, phone_row] 10) = Some (PyExc ''IntegrityError'')
   \<and> writes (the_catalog (world_of (data_scan (\<lambda>cols. cols) one_write_world
        [DatumRegexDetector (crim sample_patterns)] [] [phone_row, phone_row] 10)))
      = [(remarks_column, Phone, ''DatumRegexDetector'')]"
proof -
  let ?mds = "[ColumnNameRegexDetector, BrokenDetector]"
  let ?pre = "[(''hr'', ''staff'', ssn_column)]"
  let ?dds = "[DatumRegexDetector (crim sample_patterns)]"
  let ?ftc = "\<lambda>cols :: column list. cols"
  note inst = scans_fail_fast
    [where w = fresh_world and mds = ?mds and wg = staff_columns and pre = ?pre
       and c = id_column and e = "PyExc ''TypeError''" and s = "''hr''" and t = "''staff''"
       and post = "[]" and g = staff_columns and x = "PyExc ''TypeError''"
       and ftc = ?ftc and v = one_write_world and dds = ?dds and dwg = "[]"
       and dpre = "[phone_row]" and n = 10 and dc = remarks_column
       and dv = "PyStr ''call me at 555-123-4567 thanks''" and de = "PyExc ''IntegrityError''"
       and ds = "''crm''" and dt = "''calls''" and dpost = "[]"
       and dg = "[phone_row, phone_row]" and y = "PyExc ''IntegrityError''"]
  have mrun: "metadata_scan fresh_world ?mds staff_columns ?pre = Returned
                (world_of (metadata_scan fresh_world ?mds staff_columns ?pre))"
    by (simp add: metadata_scan_def tqdm_def ColumnNameRegexDetector_def detect_ssn_column
          set_column_pii_type_def fresh_world_def world_of_def)
  have mcat: "writes (the_catalog (world_of (metadata_scan fresh_world ?mds staff_columns ?pre)))
                = [(ssn_column, SSN, ''ColumnNameRegexDetector'')]"
    by (simp add: metadata_scan_def tqdm_def ColumnNameRegexDetector_def detect_ssn_column
          set_column_pii_type_def fresh_world_def world_of_def)
  have mfault: "md_item_fault
                  (the_catalog (world_of (metadata_scan fresh_world ?mds staff_columns ?pre)))
                  ?mds id_column = Some (PyExc ''TypeError'')"
    by (simp add: md_item_fault_def md_answers_def ColumnNameRegexDetector_def BrokenDetector_def
          detect_id_column verdict_of_Cons)
  have msplit: "staff_columns = ?pre @ (''hr'', ''staff'', id_column) # []"
    by (simp add: staff_columns_def)
  from inst mrun mfault obtain w' where
    "metadata_scan fresh_world ?mds staff_columns (?pre @ (''hr'', ''staff'', id_column) # [])
       = Raised (PyExc ''TypeError'') w'"
    and "the_catalog w'
           = the_catalog (world_of (metadata_scan fresh_world ?mds staff_columns ?pre))"
    by blast
  with mcat msplit have m: "raised (metadata_scan fresh_world ?mds staff_columns staff_columns)
                              = Some (PyExc ''TypeError'')"
    "writes (the_catalog (world_of (metadata_scan fresh_world ?mds staff_columns staff_columns)))
       = [(ssn_column, SSN, ''ColumnNameRegexDetector'')]"
    by (simp_all add: raised_def world_of_def)
  have drun: "data_scan ?ftc one_write_world ?dds [] [phone_row] 10 = Returned
                (world_of (data_scan ?ftc one_write_world ?dds [] [phone_row] 10))"
    by (simp add: data_scan_def tqdm_def phone_row_def DatumRegexDetector_def detect_call_me
          set_column_pii_type_def one_write_world_def world_of_def)
  have dcat: "writes (the_catalog (world_of (data_scan ?ftc one_write_world ?dds [] [phone_row] 10)))
                = [(remarks_column, Phone, ''DatumRegexDetector'')]"
    "fault (the_catalog (world_of (data_scan ?ftc one_write_world ?dds [] [phone_row] 10)))
                = (\<lambda>ws wr. if ws = [] then None else Some (PyExc ''IntegrityError''))"
    by (simp_all add: data_scan_def tqdm_def phone_row_def DatumRegexDetector_def detect_call_me
          set_column_pii_type_def one_write_world_def world_of_def)
  have dfault: "dd_item_fault
                  (the_catalog (world_of (data_scan ?ftc one_write_world ?dds [] [phone_row] 10)))
                  ?dds remarks_column (PyStr ''call me at 555-123-4567 thanks'')
                = Some (PyExc ''IntegrityError'')"
    by (simp add: dd_item_fault_def dcat call_answers verdict_of_Cons)
  have dsplit: "[phone_row, phone_row]
                  = [phone_row] @ (''crm'', ''calls'', remarks_column,
                                   PyStr ''call me at 555-123-4567 thanks'') # []"
    by (simp add: phone_row_def)
  from inst drun dfault obtain v' where
    "data_scan ?ftc one_write_world ?dds []
       ([phone_row] @ (''crm'', ''calls'', remarks_column,
                       PyStr ''call me at 555-123-4567 thanks'') # []) 10
       = Raised (PyExc ''IntegrityError'') v'"
    and "the_catalog v'
           = the_catalog (world_of (data_scan ?ftc one_write_world ?dds [] [phone_row] 10))"
    by blast
  with dcat dsplit have d:
    "raised (data_scan ?ftc one_write_world ?dds [] [phone_row, phone_row] 10)
       = Some (PyExc ''IntegrityError'')"
    "writes (the_catalog (world_of (data_scan ?ftc one_write_world ?dds [] [phone_row, phone_row] 10)))
       = [(remarks_column, Phone, ''DatumRegexDetector'')]"
    by (simp_all add: raised_def world_of_def)
  from m d show ?thesis by (intro conjI)
qed

subsection \<open>One write for each work item\<close>

lemma verdict_of_Match_iff:
  "verdict_of as = Match n ty \<longleftrightarrow>
     (\<exists>i < length as. as ! i = (n, Inr (Some ty)) \<and> (\<forall>j < i. snd (as ! j) = Inr None))"
proof (induction as)
  case Nil
  then show ?case by simp
next
  case (Cons na as)
  obtain m a where na: "na = (m, a)" by (cases na)
  show ?case
  proof (cases a)
    case (Inl e)
    have "\<not> (\<exists>i < length (na # as). (na # as) ! i = (n, Inr (Some ty))
              \<and> (\<forall>j < i. snd ((na # as) ! j) = Inr None))"
    proof
      assume "\<exists>i < length (na # as). (na # as) ! i = (n, Inr (Some ty))
              \<and> (\<forall>j < i. snd ((na # as) ! j) = Inr None)"
      then obtain i where i: "(na # as) ! i = (n, Inr (Some ty))"
        "\<forall>j < i. snd ((na # as) ! j) = Inr None" by blast
      show False
      proof (cases i)
        case 0
        with i(1) na Inl show False by simp
      next
        case (Suc k)
        with i(2) have "snd ((na # as) ! 0) = Inr None" by blast
        with na Inl show False by simp
      qed
    qed
    with na Inl show ?thesis by (simp add: verdict_of_Cons)
  next
    case (Inr r)
    show ?thesis
    proof (cases r)
      case None
      have "(\<exists>i < length (na # as). (na # as) ! i = (n, Inr (Some ty))
              \<and> (\<forall>j < i. snd ((na # as) ! j) = Inr None))
            \<longleftrightarrow> (\<exists>i < length as. as ! i = (n, Inr (Some ty))
              \<and> (\<forall>j < i. snd (as ! j) = Inr None))"
      proof
        assume "\<exists>i < length (na # as). (na # as) ! i = (n, Inr (Some ty))
              \<and> (\<forall>j < i. snd ((na # as) ! j) = Inr None)"
        then obtain i where i: "i < length (na # as)" "(na # as) ! i = (n, Inr (Some ty))"
          "\<forall>j < i. snd ((na # as) ! j) = Inr None" by blast
        from i(2) na Inr None obtain k where k: "i = Suc k" by (cases i) auto
        have "\<forall>j < k. snd (as ! j) = Inr None"
        proof (intro allI impI)
          fix j assume "j < k"
          then have "Suc j < i" using k by simp
          with i(3) have "snd ((na # as) ! Suc j) = Inr None" by blast
          then show "snd (as ! j) = Inr None" by simp
        qed
        with i k show "\<exists>i < length as. as ! i = (n, Inr (Some ty))
              \<and> (\<forall>j < i. snd (as ! j) = Inr None)"
          by (intro exI [of _ k]) simp
      next
        assume "\<exists>i < length as. as ! i = (n, Inr (Some ty))
              \<and> (\<forall>j < i. snd (as ! j) = Inr None)"
        then obtain k where k: "k < length as" "as ! k = (n, Inr (Some ty))"
          "\<forall>j < k. snd (as ! j) = Inr None" by blast
        have "\<forall>j < Suc k. snd ((na # as) ! j) = Inr None"
          using k(3) na Inr None by (simp add: nth_Cons split: nat.split)
        with k show "\<exists>i < length (na # as). (na # as) ! i = (n, Inr (Some ty))
              \<and> (\<forall>j < i. snd ((na # as) ! j) = Inr None)"
          by (intro exI [of _ "Suc k"]) simp
      qed
      with na Inr None Cons.IH show ?thesis by (simp add: verdict_of_Cons)
    next
      case (Some t')
      have "(\<exists>i < length (na # as). (na # as) ! i = (n, Inr (Some ty))
              \<and> (\<forall>j < i. snd ((na # as) ! j) = Inr None)) \<longleftrightarrow> (m = n \<and> t' = ty)"
      proof
        assume "\<exists>i < length (na # as). (na # as) ! i = (n, Inr (Some ty))
              \<and> (\<forall>j < i. snd ((na # as) ! j) = Inr None)"
        then obtain i where i: "(na # as) ! i = (n, Inr (Some ty))"
          "\<forall>j < i. snd ((na # as) ! j) = Inr None" by blast
        show "m = n \<and> t' = ty"
        proof (cases i)
          case 0
          with i(1) na Inr Some show ?thesis by simp
        next
          case (Suc k)
          with i(2) have "snd ((na # as) ! 0) = Inr None" by blast
          with na Inr Some show ?thesis by simp
        qed
      next
        assume "m = n \<and> t' = ty"
        with na Inr Some show "\<exists>i < length (na # as). (na # as) ! i = (n, Inr (Some ty))
              \<and> (\<forall>j < i. snd ((na # as) ! j) = Inr None)"
          by (intro exI [of _ 0]) simp
      qed
      with na Inr Some show ?thesis by (auto simp: verdict_of_Cons)
    qed
  qed
qed

lemma tried_take: "tried as = map fst (take (Suc (length (takeWhile passes as))) as)"
proof (induction as)
  case Nil
  then show ?case by simp
next
  case (Cons na as)
  obtain m a where "na = (m, a)" by (cases na)
  with Cons show ?case by (simp add: tried_Cons passes_def)
qed

lemma md_labels_append: "md_labels dets (xs @ ys) = md_labels dets xs @ md_labels dets ys"
  by (simp add: md_labels_def)

lemma dd_labels_append: "dd_labels dets (xs @ ys) = dd_labels dets xs @ dd_labels dets ys"
  by (simp add: dd_labels_def)

lemma prefix_filter_length: "prefix xs ys \<Longrightarrow> length (filter P xs) \<le> length (filter P ys)"
  by (auto simp: prefix_def)

lemma md_label_le_one: "length (md_label dets c) \<le> 1"
  by (simp add: md_label_def split: verdict.splits)

lemma dd_label_le_one: "length (dd_label dets c v) \<le> 1"
  by (simp add: dd_label_def split: verdict.splits)

lemma md_label_filter:
  "length (filter (\<lambda>wr. fst wr = col) (md_label dets c)) \<le> (if c = col then 1 else 0)"
  by (simp add: md_label_def split: verdict.splits)

lemma dd_label_filter:
  "length (filter (\<lambda>wr. fst wr = col) (dd_label dets c v)) \<le> (if c = col then 1 else 0)"
  by (simp add: dd_label_def split: verdict.splits)

lemma md_labels_per_column:
  "length (filter (\<lambda>wr. fst wr = col) (md_labels dets g))
     \<le> length (filter (\<lambda>(s, t, c). c = col) g)"
proof (induction g)
  case Nil
  then show ?case by (simp add: md_labels_def)
next
  case (Cons x g)
  obtain s t c where x: "x = (s, t, c)" by (cases x)
  have "md_labels dets (x # g) = md_label dets c @ md_labels dets g"
    by (simp add: md_labels_def x)
  with Cons md_label_filter [of col dets c] show ?case
    by (simp add: x split: if_splits)
qed

lemma dd_labels_per_column:
  "length (filter (\<lambda>wr. fst wr = col) (dd_labels dets g))
     \<le> length (filter (\<lambda>(s, t, c, v). c = col) g)"
proof (induction g)
  case Nil
  then show ?case by (simp add: dd_labels_def)
next
  case (Cons x g)
  obtain s t c v where x: "x = (s, t, c, v)" by (cases x)
  have "dd_labels dets (x # g) = dd_label dets c v @ dd_labels dets g"
    by (simp add: dd_labels_def x)
  with Cons dd_label_filter [of col dets c v] show ?case
    by (simp add: x split: if_splits)
qed

lemma metadata_scan_new_writes:
  "writes (the_catalog (world_of (metadata_scan w dets wg g)))
     = writes (the_catalog w) @ new_writes w (metadata_scan w dets wg g)
   \<and> prefix (new_writes w (metadata_scan w dets wg g)) (md_labels dets g)
   \<and> (raised (metadata_scan w dets wg g) = None \<longrightarrow>
        new_writes w (metadata_scan w dets wg g) = md_labels dets g)"
proof (cases "metadata_scan w dets wg g")
  case (Returned w1)
  then obtain cnt sn w2 where
    loop: "metadata_columns dets g (0, 0, w) = Inr (cnt, sn, w2)"
    and w1: "w1 = w2\<lparr>LOGGER := LOGGER w2 @ [ColumnsScanned cnt sn]\<rparr>"
    unfolding metadata_scan_Returned_iff by (elim exE conjE)
  from metadata_columns_Inr [OF loop] w1
  have "writes (the_catalog w1) = writes (the_catalog w) @ md_labels dets g" by simp
  then show ?thesis by (simp add: Returned new_writes_def world_of_def)
next
  case (Raised e w')
  from metadata_scan_raises_only_on_fault [OF this] obtain pre s t c post w1 where
    g: "g = pre @ (s, t, c) # post"
    and p: "metadata_scan w dets wg pre = Returned w1"
    and c: "the_catalog w' = the_catalog w1"
    by (elim exE conjE)
  from p obtain cnt sn w2 where
    loop: "metadata_columns dets pre (0, 0, w) = Inr (cnt, sn, w2)"
    and w1: "w1 = w2\<lparr>LOGGER := LOGGER w2 @ [ColumnsScanned cnt sn]\<rparr>"
    unfolding metadata_scan_Returned_iff by (elim exE conjE)
  from metadata_columns_Inr [OF loop] w1 c
  have "writes (the_catalog w') = writes (the_catalog w) @ md_labels dets pre" by simp
  then have "writes (the_catalog (world_of (metadata_scan w dets wg g)))
               = writes (the_catalog w) @ new_writes w (metadata_scan w dets wg g)"
    and "new_writes w (metadata_scan w dets wg g) = md_labels dets pre"
    and "raised (metadata_scan w dets wg g) \<noteq> None"
    by (simp_all add: Raised new_writes_def world_of_def raised_def)
  moreover have "prefix (md_labels dets pre) (md_labels dets g)"
    by (simp add: g md_labels_append)
  ultimately show ?thesis by auto
qed

lemma data_scan_new_writes:
  "writes (the_catalog (world_of (data_scan ftc w dets wg g n)))
     = writes (the_catalog w) @ new_writes w (data_scan ftc w dets wg g n)
   \<and> prefix (new_writes w (data_scan ftc w dets wg g n)) (dd_labels dets g)
   \<and> (raised (data_scan ftc w dets wg g n) = None \<longrightarrow>
        new_writes w (data_scan ftc w dets wg g n) = dd_labels dets g)"
proof (cases "data_scan ftc w dets wg g n")
  case (Returned w1)
  then obtain cnt sn w2 where
    loop: "datum_items dets g (0, 0, w) = Inr (cnt, sn, w2)"
    and w1: "w1 = w2\<lparr>LOGGER := LOGGER w2 @ [ColumnsScanned cnt sn]\<rparr>"
    unfolding data_scan_Returned_iff by (elim exE conjE)
  from datum_items_Inr [OF loop] w1
  have "writes (the_catalog w1) = writes (the_catalog w) @ dd_labels dets g" by simp
  then show ?thesis by (simp add: Returned new_writes_def world_of_def)
next
  case (Raised e w')
  from data_scan_raises_only_on_fault [OF this] obtain pre s t c v post w1 where
    g: "g = pre @ (s, t, c, v) # post"
    and p: "data_scan ftc w dets wg pre n = Returned w1"
    and c: "the_catalog w' = the_catalog w1"
    by (elim exE conjE)
  from p obtain cnt sn w2 where
    loop: "datum_items dets pre (0, 0, w) = Inr (cnt, sn, w2)"
    and w1: "w1 = w2\<lparr>LOGGER := LOGGER w2 @ [ColumnsScanned cnt sn]\<rparr>"
    unfolding data_scan_Returned_iff by (elim exE conjE)
  from datum_items_Inr [OF loop] w1 c
  have "writes (the_catalog w') = writes (the_catalog w) @ dd_labels dets pre" by simp
  then have "writes (the_catalog (world_of (data_scan ftc w dets wg g n)))
               = writes (the_catalog w) @ new_writes w (data_scan ftc w dets wg g n)"
    and "new_writes w (data_scan ftc w dets wg g n) = dd_labels dets pre"
    and "raised (data_scan ftc w dets wg g n) \<noteq> None"
    by (simp_all add: Raised new_writes_def world_of_def raised_def)
  moreover have "prefix (dd_labels dets pre) (dd_labels dets g)"
    by (simp add: g dd_labels_append)
  ultimately show ?thesis by auto
qed

lemma distinct_filter_le_one:
  "distinct (map f xs) \<Longrightarrow> length (filter (\<lambda>x. f x = a) xs) \<le> 1"
proof (induction xs)
  case Nil
  then show ?case by simp
next
  case (Cons x xs)
  show ?case
  proof (cases "f x = a")
    case True
    with Cons.prems have "a \<notin> f ` set xs" by auto
    then have "filter (\<lambda>x. f x = a) xs = []" by (auto simp: filter_empty_conv)
    with True show ?thesis by simp
  next
    case False
    with Cons show ?thesis by simp
  qed
qed

lemma md_calls_append: "md_calls dets (xs @ ys) = md_calls dets xs @ md_calls dets ys"
  by (simp add: md_calls_def)

lemma dd_calls_append: "dd_calls dets (xs @ ys) = dd_calls dets xs @ dd_calls dets ys"
  by (simp add: dd_calls_def)

lemma metadata_scan_new_calls:
  "detect_calls (world_of (metadata_scan w dets wg g))
     = detect_calls w @ new_calls w (metadata_scan w dets wg g)
   \<and> prefix (new_calls w (metadata_scan w dets wg g)) (md_calls dets g)"
proof (cases "metadata_scan w dets wg g")
  case (Returned w1)
  then obtain cnt sn w2 where
    loop: "metadata_columns dets g (0, 0, w) = Inr (cnt, sn, w2)"
    and w1: "w1 = w2\<lparr>LOGGER := LOGGER w2 @ [ColumnsScanned cnt sn]\<rparr>"
    unfolding metadata_scan_Returned_iff by (elim exE conjE)
  from metadata_columns_Inr [OF loop] w1
  have "detect_calls w1 = detect_calls w @ md_calls dets g" by simp
  then show ?thesis by (simp add: Returned new_calls_def world_of_def)
next
  case (Raised e w')
  then have "metadata_columns dets g (0, 0, w) = Inl (e, w')"
    by (simp add: metadata_scan_Raised_iff)
  from metadata_columns_Inl [OF this] obtain pre s t c post cnt1 sn1 w2 where
    g: "g = pre @ (s, t, c) # post"
    and p: "metadata_columns dets pre (0, 0, w) = Inr (cnt1, sn1, w2)"
    and w': "w' = w2\<lparr>LOGGER := LOGGER w2 @ [ScanningColumn (fqdn c)],
                  detect_calls :=
                    detect_calls w2 @ map (\<lambda>n. MetadataCall n c) (tried (md_answers dets c))\<rparr>"
    by (elim exE conjE)
  from metadata_columns_Inr [OF p] w'
  have "detect_calls w' = detect_calls w
          @ (md_calls dets pre @ map (\<lambda>n. MetadataCall n c) (tried (md_answers dets c)))"
    by simp
  then have "detect_calls (world_of (metadata_scan w dets wg g))
               = detect_calls w @ new_calls w (metadata_scan w dets wg g)"
    and "new_calls w (metadata_scan w dets wg g)
           = md_calls dets pre @ map (\<lambda>n. MetadataCall n c) (tried (md_answers dets c))"
    by (simp_all add: Raised new_calls_def world_of_def)
  moreover have "prefix (md_calls dets pre @ map (\<lambda>n. MetadataCall n c) (tried (md_answers dets c)))
                   (md_calls dets g)"
    by (simp add: g md_calls_append) (simp add: md_calls_def)
  ultimately show ?thesis by simp
qed

lemma data_scan_new_calls:
  "detect_calls (world_of (data_scan ftc w dets wg g n))
     = detect_calls w @ new_calls w (data_scan ftc w dets wg g n)
   \<and> prefix (new_calls w (data_scan ftc w dets wg g n)) (dd_calls dets g)"
proof (cases "data_scan ftc w dets wg g n")
  case (Returned w1)
  then obtain cnt sn w2 where
    loop: "datum_items dets g (0, 0, w) = Inr (cnt, sn, w2)"
    and w1: "w1 = w2\<lparr>LOGGER := LOGGER w2 @ [ColumnsScanned cnt sn]\<rparr>"
    unfolding data_scan_Returned_iff by (elim exE conjE)
  from datum_items_Inr [OF loop] w1
  have "detect_calls w1 = detect_calls w @ dd_calls dets g" by simp
  then show ?thesis by (simp add: Returned new_calls_def world_of_def)
next
  case (Raised e w')
  then have "datum_items dets g (0, 0, w) = Inl (e, w')"
    by (simp add: data_scan_Raised_iff)
  from datum_items_Inl [OF this] obtain pre s t c v post cnt1 sn1 w2 where
    g: "g = pre @ (s, t, c, v) # post"
    and p: "datum_items dets pre (0, 0, w) = Inr (cnt1, sn1, w2)"
    and w': "w' = w2\<lparr>LOGGER := LOGGER w2 @ [ScanningColumn (fqdn c)],
                  detect_calls := detect_calls w2 @ dd_call dets c v\<rparr>"
    by (elim exE conjE)
  from datum_items_Inr [OF p] w'
  have "detect_calls w' = detect_calls w @ (dd_calls dets pre @ dd_call dets c v)"
    by simp
  then have "detect_calls (world_of (data_scan ftc w dets wg g n))
               = detect_calls w @ new_calls w (data_scan ftc w dets wg g n)"
    and "new_calls w (data_scan ftc w dets wg g n) = dd_calls dets pre @ dd_call dets c v"
    by (simp_all add: Raised new_calls_def world_of_def)
  moreover have "prefix (dd_calls dets pre @ dd_call dets c v) (dd_calls dets g)"
    by (simp add: g dd_calls_append) (simp add: dd_calls_def)
  ultimately show ?thesis by simp
qed

text \<open>
  Claim C1, as amended.  In a scan pass at most one classification is written for each work
  item: that of the first detector in the list that returns a type, and the detectors
  after it are not called.  The writes of a pass are those the enumeration asks for, item
  by item, up to the point where the scan stopped; so a column is written at most as often
  as the enumeration yields it, and at most once when the enumeration yields every column
  once.  The detector calls of a pass are likewise an initial part of the calls the
  enumeration asks for, in which every item's calls stop at its first match.
\<close>

theorem one_write_per_work_item:
  "(verdict_of as = Match n ty \<longleftrightarrow>
      (\<exists>i < length as. as ! i = (n, Inr (Some ty)) \<and> (\<forall>j < i. snd (as ! j) = Inr None)))
   \<and> tried as = map fst (take (Suc (length (takeWhile passes as))) as)
   \<and> length (md_label mds c) \<le> 1
   \<and> writes (the_catalog (world_of (metadata_scan w mds wg g)))
        = writes (the_catalog w) @ new_writes w (metadata_scan w mds wg g)
   \<and> prefix (new_writes w (metadata_scan w mds wg g)) (md_labels mds g)
   \<and> (raised (metadata_scan w mds wg g) = None \<longrightarrow>
        new_writes w (metadata_scan w mds wg g) = md_labels mds g)
   \<and> length (filter (\<lambda>wr. fst wr = col) (new_writes w (metadata_scan w mds wg g)))
        \<le> length (filter (\<lambda>(s, t, c). c = col) g)
   \<and> length (dd_label dds c v) \<le> 1
   \<and> writes (the_catalog (world_of (data_scan ftc w dds dwg dg k)))
        = writes (the_catalog w) @ new_writes w (data_scan ftc w dds dwg dg k)
   \<and> prefix (new_writes w (data_scan ftc w dds dwg dg k)) (dd_labels dds dg)
   \<and> (raised (data_scan ftc w dds dwg dg k) = None \<longrightarrow>
        new_writes w (data_scan ftc w dds dwg dg k) = dd_labels dds dg)
   \<and> length (filter (\<lambda>wr. fst wr = col) (new_writes w (data_scan ftc w dds dwg dg k)))
        \<le> length (filter (\<lambda>(s, t, c, v). c = col) dg)
   \<and> (distinct (map (\<lambda>(s, t, c). c) g) \<longrightarrow>
        length (filter (\<lambda>wr. fst wr = col) (new_writes w (metadata_scan w mds wg g))) \<le> 1)
   \<and> (distinct (map (\<lambda>(s, t, c, v). c) dg) \<longrightarrow>
        length (filter (\<lambda>wr. fst wr = col) (new_writes w (data_scan ftc w dds dwg dg k))) \<le> 1)
   \<and> detect_calls (world_of (metadata_scan w mds wg g))
        = detect_calls w @ new_calls w (metadata_scan w mds wg g)
   \<and> prefix (new_calls w (metadata_scan w mds wg g)) (md_calls mds g)
   \<and> detect_calls (world_of (data_scan ftc w dds dwg dg k))
        = detect_calls w @ new_calls w (data_scan ftc w dds dwg dg k)
   \<and> prefix (new_calls w (data_scan ftc w dds dwg dg k)) (dd_calls dds dg)"
proof -
  note mcalls = metadata_scan_new_calls [of w mds wg g]
  note dcalls = data_scan_new_calls [of ftc w dds dwg dg k]
  note m = metadata_scan_new_writes [of w mds wg g]
  note d = data_scan_new_writes [of ftc w dds dwg dg k]
  from m have "length (filter (\<lambda>wr. fst wr = col) (new_writes w (metadata_scan w mds wg g)))
                 \<le> length (filter (\<lambda>wr. fst wr = col) (md_labels mds g))"
    by (intro prefix_filter_length) simp
  with md_labels_per_column [of col mds g]
  have mc: "length (filter (\<lambda>wr. fst wr = col) (new_writes w (metadata_scan w mds wg g)))
              \<le> length (filter (\<lambda>(s, t, c). c = col) g)"
    by linarith
  from d have "length (filter (\<lambda>wr. fst wr = col) (new_writes w (data_scan ftc w dds dwg dg k)))
                 \<le> length (filter (\<lambda>wr. fst wr = col) (dd_labels dds dg))"
    by (intro prefix_filter_length) simp
  with dd_labels_per_column [of col dds dg]
  have dc: "length (filter (\<lambda>wr. fst wr = col) (new_writes w (data_scan ftc w dds dwg dg k)))
              \<le> length (filter (\<lambda>(s, t, c, v). c = col) dg)"
    by linarith
  have f3: "(\<lambda>(s, t, c). c = col) = (\<lambda>x. (\<lambda>(s, t, c). c) x = col)"
    and f4: "(\<lambda>(s, t, c, v). c = col) = (\<lambda>x. (\<lambda>(s, t, c, v). c) x = col)"
    by auto
  have md: "distinct (map (\<lambda>(s, t, c). c) g) \<longrightarrow>
        length (filter (\<lambda>wr. fst wr = col) (new_writes w (metadata_scan w mds wg g))) \<le> 1"
  proof
    assume "distinct (map (\<lambda>(s, t, c). c) g)"
    from distinct_filter_le_one [OF this, of col]
    have "length (filter (\<lambda>(s, t, c). c = col) g) \<le> 1" by (simp only: f3)
    with mc show "length (filter (\<lambda>wr. fst wr = col)
                    (new_writes w (metadata_scan w mds wg g))) \<le> 1"
      by linarith
  qed
  have dd: "distinct (map (\<lambda>(s, t, c, v). c) dg) \<longrightarrow>
        length (filter (\<lambda>wr. fst wr = col) (new_writes w (data_scan ftc w dds dwg dg k))) \<le> 1"
  proof
    assume "distinct (map (\<lambda>(s, t, c, v). c) dg)"
    from distinct_filter_le_one [OF this, of col]
    have "length (filter (\<lambda>(s, t, c, v). c = col) dg) \<le> 1" by (simp only: f4)
    with dc show "length (filter (\<lambda>wr. fst wr = col)
                    (new_writes w (data_scan ftc w dds dwg dg k))) \<le> 1"
      by linarith
  qed
  from m have m1: "writes (the_catalog (world_of (metadata_scan w mds wg g)))
        = writes (the_catalog w) @ new_writes w (metadata_scan w mds wg g)"
    and m2: "prefix (new_writes w (metadata_scan w mds wg g)) (md_labels mds g)"
    and m3: "raised (metadata_scan w mds wg g) = None \<longrightarrow>
        new_writes w (metadata_scan w mds wg g) = md_labels mds g"
    by simp_all
  from d have d1: "writes (the_catalog (world_of (data_scan ftc w dds dwg dg k)))
        = writes (the_catalog w) @ new_writes w (data_scan ftc w dds dwg dg k)"
    and d2: "prefix (new_writes w (data_scan ftc w dds dwg dg k)) (dd_labels dds dg)"
    and d3: "raised (data_scan ftc w dds dwg dg k) = None \<longrightarrow>
        new_writes w (data_scan ftc w dds dwg dg k) = dd_labels dds dg"
    by simp_all
  show ?thesis
    by (intro conjI)
      (rule verdict_of_Match_iff tried_take md_label_le_one dd_label_le_one m1 m2 m3 mc
         d1 d2 d3 dc md dd mcalls [THEN conjunct1] mcalls [THEN conjunct2]
         dcalls [THEN conjunct1] dcalls [THEN conjunct2])+
qed

lemma detect_phone_only:
  "DatumRegexDetector_detect (crim sample_patterns) remarks_column (PyStr ''555-123-4567'') = Some Phone"
  using detect_phone_anywhere [OF sample_shapes(1), of remarks_column "[]" "[]"]
  by simp

text \<open>
  A data scan whose enumeration yields two sampled values of one column, both phone numbers,
  calls \<^verbatim>\<open>set_column_pii_type\<close> twice for that column.
\<close>

theorem data_scan_writes_column_twice:
  "new_writes fresh_world
     (data_scan (\<lambda>cols. cols) fresh_world [DatumRegexDetector (crim sample_patterns)] []
        [phone_row, phone_row2] 10)
     = [(remarks_column, Phone, ''DatumRegexDetector''),
        (remarks_column, Phone, ''DatumRegexDetector'')]"
  by (simp add: new_writes_def data_scan_def tqdm_def phone_row_def phone_row2_def
        DatumRegexDetector_def detect_call_me detect_phone_only set_column_pii_type_def
        fresh_world_def world_of_def)

text \<open>
  Of three detectors of which the second and the third match, the second decides and the
  third is not called; the two sample scans write once.
\<close>

theorem one_write_per_work_item_witness:
  "new_writes fresh_world
     (metadata_scan fresh_world [ColumnNameRegexDetector] staff_columns staff_columns)
     = [(ssn_column, SSN, ''ColumnNameRegexDetector'')]
   \<and> new_writes fresh_world
     (data_scan (\<lambda>cols. cols) fresh_world [DatumRegexDetector (crim sample_patterns)] [] call_samples 10)
     = [(remarks_column, Phone, ''DatumRegexDetector'')]
   \<and> verdict_of [(''first'', Inr None), (''second'', Inr (Some Email)), (''third'', Inr (Some Phone))]
       = Match ''second'' Email
   \<and> tried [(''first'', Inr None), (''second'', Inr (Some Email)), (''third'', Inr (Some Phone))]
       = [''first'', ''second'']"
proof -
  let ?as = "[(''first'', Inr None), (''second'', Inr (Some Email)), (''third'', Inr (Some Phone))]
               :: (string \<times> answer) list"
  let ?m = "metadata_scan fresh_world [ColumnNameRegexDetector] staff_columns staff_columns"
  let ?d = "data_scan (\<lambda>cols. cols) fresh_world [DatumRegexDetector (crim sample_patterns)] [] call_samples 10"
  note inst = one_write_per_work_item
    [where as = ?as and n = "''second''" and ty = Email and w = fresh_world
       and mds = "[ColumnNameRegexDetector]" and wg = staff_columns and g = staff_columns
       and ftc = "\<lambda>cols. cols" and dds = "[DatumRegexDetector (crim sample_patterns)]" and dwg = "[]"
       and dg = call_samples and k = 10]
  have rm: "raised ?m = None"
    by (simp add: metadata_scan_def tqdm_def staff_columns_def ColumnNameRegexDetector_def
          detect_ssn_column detect_id_column set_column_pii_type_def fresh_world_def raised_def)
  have rd: "raised ?d = None"
    by (simp add: data_scan_def tqdm_def call_samples_def DatumRegexDetector_def
          detect_call_me detect_nothing_here set_column_pii_type_def fresh_world_def raised_def)
  have lm: "md_labels [ColumnNameRegexDetector] staff_columns
             = [(ssn_column, SSN, ''ColumnNameRegexDetector'')]"
    by (simp add: md_labels_def md_label_def staff_columns_def staff_answers verdict_of_Cons)
  have ld: "dd_labels [DatumRegexDetector (crim sample_patterns)] call_samples
             = [(remarks_column, Phone, ''DatumRegexDetector'')]"
    by (simp add: dd_labels_def dd_label_def call_samples_def call_answers verdict_of_Cons)
  note i_verdict = inst [THEN conjunct1]
  note i_tried = inst [THEN conjunct2, THEN conjunct1]
  note i_md = inst [THEN conjunct2, THEN conjunct2, THEN conjunct2, THEN conjunct2,
      THEN conjunct2, THEN conjunct1]
  note i_dd = inst [THEN conjunct2, THEN conjunct2, THEN conjunct2, THEN conjunct2,
      THEN conjunct2, THEN conjunct2, THEN conjunct2, THEN conjunct2, THEN conjunct2,
      THEN conjunct2, THEN conjunct1]
  have "\<exists>i < length ?as. ?as ! i = (''second'', Inr (Some Email))
               \<and> (\<forall>j < i. snd (?as ! j) = Inr None)"
    by (intro exI [of _ 1]) simp
  with i_verdict have v: "verdict_of ?as = Match ''second'' Email" by (rule iffD2)
  have tw: "takeWhile passes ?as = [(''first'', Inr None)]" by (simp add: passes_def)
  from i_tried have t: "tried ?as = [''first'', ''second'']" by (simp only: tw) simp
  from i_md rm lm have nm: "new_writes fresh_world ?m = [(ssn_column, SSN, ''ColumnNameRegexDetector'')]"
    by simp
  from i_dd rd ld have nd: "new_writes fresh_world ?d = [(remarks_column, Phone, ''DatumRegexDetector'')]"
    by simp
  from nm nd v t show ?thesis by (intro conjI)
qed

subsection \<open>Running a scan again\<close>

lemma with_history_no_history: "with_history w (no_history w) = w"
  by (simp add: with_history_def no_history_def)

lemma no_history_cong: "the_catalog v = the_catalog w \<Longrightarrow> no_history v = no_history w"
  by (cases v, cases w) (simp add: no_history_def)

lemma with_history_LOGGER:
  "(with_history h w)\<lparr>LOGGER := LOGGER (with_history h w) @ xs\<rparr>
     = with_history h (w\<lparr>LOGGER := LOGGER w @ xs\<rparr>)"
  by (simp add: with_history_def)

lemma metadata_detectors_history:
  "metadata_detectors dets c (sn, with_history h w) =
     map_sum (\<lambda>(e, w'). (e, with_history h w')) (\<lambda>(sn', w'). (sn', with_history h w'))
       (metadata_detectors dets c (sn, w))"
  unfolding metadata_detectors_closed
  by (simp add: with_history_def Let_def split: verdict.splits sum.splits)

lemma metadata_columns_history:
  "metadata_columns dets g (cnt, sn, with_history h w) =
     map_sum (\<lambda>(e, w'). (e, with_history h w')) (\<lambda>(cnt', sn', w'). (cnt', sn', with_history h w'))
       (metadata_columns dets g (cnt, sn, w))"
proof (induction g arbitrary: cnt sn w)
  case Nil
  then show ?case by simp
next
  case (Cons x g)
  obtain s t c where x: "x = (s, t, c)" by (cases x)
  have l: "(with_history h w)\<lparr>LOGGER := LOGGER (with_history h w) @ [ScanningColumn (fqdn c)]\<rparr>
             = with_history h (w\<lparr>LOGGER := LOGGER w @ [ScanningColumn (fqdn c)]\<rparr>)"
    by (simp add: with_history_def)
  show ?case
    by (simp add: x Let_def l metadata_detectors_history Cons.IH split: sum.splits)
qed

lemma metadata_scan_history:
  "metadata_scan (with_history h w) dets wg g = map_outcome (with_history h) (metadata_scan w dets wg2 g)"
proof (cases "metadata_columns dets g (0, 0, w)")
  case (Inl ew)
  obtain e w' where "ew = (e, w')" by (cases ew)
  with Inl show ?thesis
    by (simp add: metadata_scan_def tqdm_def metadata_columns_history map_outcome_def)
next
  case (Inr r)
  obtain cnt sn w' where "r = (cnt, sn, w')" by (cases r)
  with Inr show ?thesis
    by (simp add: metadata_scan_def tqdm_def metadata_columns_history map_outcome_def
          with_history_LOGGER)
qed

lemma datum_detectors_history:
  "datum_detectors dets c v (sn, with_history h w) =
     map_sum (\<lambda>(e, w'). (e, with_history h w')) (\<lambda>(sn', w'). (sn', with_history h w'))
       (datum_detectors dets c v (sn, w))"
  unfolding datum_detectors_closed
  by (simp add: with_history_def Let_def split: verdict.splits sum.splits)

lemma datum_items_history:
  "datum_items dets g (cnt, sn, with_history h w) =
     map_sum (\<lambda>(e, w'). (e, with_history h w')) (\<lambda>(cnt', sn', w'). (cnt', sn', with_history h w'))
       (datum_items dets g (cnt, sn, w))"
proof (induction g arbitrary: cnt sn w)
  case Nil
  then show ?case by simp
next
  case (Cons x g)
  obtain s t c v where x: "x = (s, t, c, v)" by (cases x)
  have l: "(with_history h w)\<lparr>LOGGER := LOGGER (with_history h w) @ [ScanningColumn (fqdn c)]\<rparr>
             = with_history h (w\<lparr>LOGGER := LOGGER w @ [ScanningColumn (fqdn c)]\<rparr>)"
    by (simp add: with_history_def)
  show ?case
    by (simp add: x Let_def l datum_detectors_history Cons.IH split: sum.splits)
qed

lemma data_scan_history:
  "data_scan ftc (with_history h w) dets wg g n
     = map_outcome (with_history h) (data_scan ftc2 w dets wg2 g n2)"
proof (cases "datum_items dets g (0, 0, w)")
  case (Inl ew)
  obtain e w' where "ew = (e, w')" by (cases ew)
  with Inl show ?thesis
    by (simp add: data_scan_def tqdm_def Let_def datum_items_history map_outcome_def)
next
  case (Inr r)
  obtain cnt sn w' where "r = (cnt, sn, w')" by (cases r)
  with Inr show ?thesis
    by (simp add: data_scan_def tqdm_def Let_def datum_items_history map_outcome_def
          with_history_LOGGER)
qed

lemma reported_metadata_scan_history:
  "reported (map_outcome (with_history h) (metadata_scan w dets wg g))
     = reported (metadata_scan w dets wg g)"
  by (simp add: metadata_scan_def tqdm_def map_outcome_def with_history_def reported_def
        split: sum.splits)

lemma reported_data_scan_history:
  "reported (map_outcome (with_history h) (data_scan ftc w dets wg g n))
     = reported (data_scan ftc w dets wg g n)"
  by (simp add: data_scan_def tqdm_def Let_def map_outcome_def with_history_def reported_def
        split: sum.splits)

lemma map_outcome_history:
  "raised (map_outcome (with_history h) out) = raised out"
  "the_catalog (world_of (map_outcome (with_history h) out)) = the_catalog (world_of out)"
  by (cases out; simp add: map_outcome_def raised_def world_of_def with_history_def)+

lemma metadata_scan_depends_on_catalog:
  assumes "the_catalog v = the_catalog w"
  shows "reported (metadata_scan v dets wg2 g) = reported (metadata_scan w dets wg g)"
    and "raised (metadata_scan v dets wg2 g) = raised (metadata_scan w dets wg g)"
    and "the_catalog (world_of (metadata_scan v dets wg2 g))
           = the_catalog (world_of (metadata_scan w dets wg g))"
proof -
  let ?core = "metadata_scan (no_history w) dets wg g"
  have "with_history v (no_history w) = v"
    using with_history_no_history [of v] no_history_cong [OF assms] by simp
  then have v: "metadata_scan v dets wg2 g = map_outcome (with_history v) ?core"
    using metadata_scan_history [of v "no_history w" dets wg2 g wg] by simp
  have w: "metadata_scan w dets wg g = map_outcome (with_history w) ?core"
    using metadata_scan_history [of w "no_history w" dets wg g wg]
    by (simp add: with_history_no_history)
  show "reported (metadata_scan v dets wg2 g) = reported (metadata_scan w dets wg g)"
    "raised (metadata_scan v dets wg2 g) = raised (metadata_scan w dets wg g)"
    "the_catalog (world_of (metadata_scan v dets wg2 g))
           = the_catalog (world_of (metadata_scan w dets wg g))"
    unfolding v w by (simp_all add: reported_metadata_scan_history map_outcome_history)
qed

lemma data_scan_depends_on_catalog:
  assumes "the_catalog v = the_catalog w"
  shows "reported (data_scan ftc2 v dets wg2 g n2) = reported (data_scan ftc w dets wg g n)"
    and "raised (data_scan ftc2 v dets wg2 g n2) = raised (data_scan ftc w dets wg g n)"
    and "the_catalog (world_of (data_scan ftc2 v dets wg2 g n2))
           = the_catalog (world_of (data_scan ftc w dets wg g n))"
proof -
  let ?core = "data_scan ftc (no_history w) dets wg g n"
  have "with_history v (no_history w) = v"
    using with_history_no_history [of v] no_history_cong [OF assms] by simp
  then have v: "data_scan ftc2 v dets wg2 g n2 = map_outcome (with_history v) ?core"
    using data_scan_history [of ftc2 v "no_history w" dets wg2 g n2 ftc wg n] by simp
  have w: "data_scan ftc w dets wg g n = map_outcome (with_history w) ?core"
    using data_scan_history [of ftc w "no_history w" dets wg g n ftc wg n]
    by (simp add: with_history_no_history)
  show "reported (data_scan ftc2 v dets wg2 g n2) = reported (data_scan ftc w dets wg g n)"
    "raised (data_scan ftc2 v dets wg2 g n2) = raised (data_scan ftc w dets wg g n)"
    "the_catalog (world_of (data_scan ftc2 v dets wg2 g n2))
           = the_catalog (world_of (data_scan ftc w dets wg g n))"
    unfolding v w by (simp_all add: reported_data_scan_history map_outcome_history)
qed

text \<open>
  Claim C7.  What a scan reports, whether it raises, and what it leaves in the catalog
  depend on the detector list, the work enumeration and the catalog it starts with, and
  on nothing else.  So running either scan again on the same inputs, from the world the
  first run left with the catalog reset, gives the same counts and the same classifications.
\<close>

theorem scans_are_repeatable:
  "(the_catalog v = the_catalog w \<longrightarrow>
      reported (metadata_scan v mds wg g) = reported (metadata_scan w mds wg g)
      \<and> raised (metadata_scan v mds wg g) = raised (metadata_scan w mds wg g)
      \<and> new_writes v (metadata_scan v mds wg g) = new_writes w (metadata_scan w mds wg g))
   \<and> (let out1 = metadata_scan w mds wg g;
           out2 = metadata_scan ((world_of out1)\<lparr>the_catalog := the_catalog w\<rparr>) mds wg g
       in reported out2 = reported out1 \<and> raised out2 = raised out1
          \<and> the_catalog (world_of out2) = the_catalog (world_of out1))
   \<and> (the_catalog v = the_catalog w \<longrightarrow>
      reported (data_scan ftc v dds dwg dg n) = reported (data_scan ftc w dds dwg dg n)
      \<and> raised (data_scan ftc v dds dwg dg n) = raised (data_scan ftc w dds dwg dg n)
      \<and> new_writes v (data_scan ftc v dds dwg dg n) = new_writes w (data_scan ftc w dds dwg dg n))
   \<and> (let out1 = data_scan ftc w dds dwg dg n;
           out2 = data_scan ftc ((world_of out1)\<lparr>the_catalog := the_catalog w\<rparr>) dds dwg dg n
       in reported out2 = reported out1 \<and> raised out2 = raised out1
          \<and> the_catalog (world_of out2) = the_catalog (world_of out1))"
proof -
  have m1: "the_catalog v = the_catalog w \<longrightarrow>
      reported (metadata_scan v mds wg g) = reported (metadata_scan w mds wg g)
      \<and> raised (metadata_scan v mds wg g) = raised (metadata_scan w mds wg g)
      \<and> new_writes v (metadata_scan v mds wg g) = new_writes w (metadata_scan w mds wg g)"
    using metadata_scan_depends_on_catalog [of v w mds wg g wg]
    by (simp add: new_writes_def)
  let ?w2 = "(world_of (metadata_scan w mds wg g))\<lparr>the_catalog := the_catalog w\<rparr>"
  have "the_catalog ?w2 = the_catalog w" by simp
  from metadata_scan_depends_on_catalog [OF this, of mds wg g wg]
  have m2: "let out1 = metadata_scan w mds wg g;
           out2 = metadata_scan ((world_of out1)\<lparr>the_catalog := the_catalog w\<rparr>) mds wg g
       in reported out2 = reported out1 \<and> raised out2 = raised out1
          \<and> the_catalog (world_of out2) = the_catalog (world_of out1)"
    by (simp add: Let_def)
  have d1: "the_catalog v = the_catalog w \<longrightarrow>
      reported (data_scan ftc v dds dwg dg n) = reported (data_scan ftc w dds dwg dg n)
      \<and> raised (data_scan ftc v dds dwg dg n) = raised (data_scan ftc w dds dwg dg n)
      \<and> new_writes v (data_scan ftc v dds dwg dg n) = new_writes w (data_scan ftc w dds dwg dg n)"
    using data_scan_depends_on_catalog [of v w ftc dds dwg dg n ftc dwg n]
    by (simp add: new_writes_def)
  let ?v2 = "(world_of (data_scan ftc w dds dwg dg n))\<lparr>the_catalog := the_catalog w\<rparr>"
  have "the_catalog ?v2 = the_catalog w" by simp
  from data_scan_depends_on_catalog [OF this, of ftc dds dwg dg n ftc dwg n]
  have d2: "let out1 = data_scan ftc w dds dwg dg n;
           out2 = data_scan ftc ((world_of out1)\<lparr>the_catalog := the_catalog w\<rparr>) dds dwg dg n
       in reported out2 = reported out1 \<and> raised out2 = raised out1
          \<and> the_catalog (world_of out2) = the_catalog (world_of out1)"
    by (simp add: Let_def)
  from m1 m2 d1 d2 show ?thesis by (intro conjI)
qed

text \<open>Both sample scans, run a second time after a reset of the catalog, report as before.\<close>

theorem scans_are_repeatable_witness:
  "reported (metadata_scan
      ((world_of (metadata_scan fresh_world [ColumnNameRegexDetector] staff_columns staff_columns))
         \<lparr>the_catalog := the_catalog fresh_world\<rparr>)
      [ColumnNameRegexDetector] staff_columns staff_columns) = Some (2, 1)
   \<and> reported (data_scan (\<lambda>cols. cols)
      ((world_of (data_scan (\<lambda>cols. cols) fresh_world [DatumRegexDetector (crim sample_patterns)] []
                    call_samples 10))
         \<lparr>the_catalog := the_catalog fresh_world\<rparr>)
      [DatumRegexDetector (crim sample_patterns)] [] call_samples 10) = Some (3, 1)"
proof -
  let ?m = "metadata_scan fresh_world [ColumnNameRegexDetector] staff_columns staff_columns"
  let ?d = "data_scan (\<lambda>cols. cols) fresh_world [DatumRegexDetector (crim sample_patterns)] [] call_samples 10"
  let ?v = "(world_of ?m)\<lparr>the_catalog := the_catalog fresh_world\<rparr>"
  let ?u = "(world_of ?d)\<lparr>the_catalog := the_catalog fresh_world\<rparr>"
  have rm: "reported ?m = Some (2, 1)"
    by (simp add: metadata_scan_def tqdm_def staff_columns_def ColumnNameRegexDetector_def
          detect_ssn_column detect_id_column set_column_pii_type_def fresh_world_def reported_def)
  have rd: "reported ?d = Some (3, 1)"
    by (simp add: data_scan_def tqdm_def call_samples_def DatumRegexDetector_def
          detect_call_me detect_nothing_here set_column_pii_type_def fresh_world_def reported_def)
  have "the_catalog ?v = the_catalog fresh_world" by simp
  with scans_are_repeatable
         [where v = ?v and w = fresh_world and mds = "[ColumnNameRegexDetector]"
            and wg = staff_columns and g = staff_columns, THEN conjunct1]
  have "reported (metadata_scan ?v [ColumnNameRegexDetector] staff_columns staff_columns)
          = reported ?m"
    by simp
  moreover have "the_catalog ?u = the_catalog fresh_world" by simp
  with scans_are_repeatable
         [where v = ?u and w = fresh_world and ftc = "\<lambda>cols. cols"
            and dds = "[DatumRegexDetector (crim sample_patterns)]" and dwg = "[]" and dg = call_samples
            and n = 10, THEN conjunct2, THEN conjunct2, THEN conjunct1]
  have "reported (data_scan (\<lambda>cols. cols) ?u [DatumRegexDetector (crim sample_patterns)] [] call_samples 10)
          = reported ?d"
    by simp
  ultimately show ?thesis using rm rd by simp
qed

subsection \<open>Absent values\<close>

lemma quiet_LOGGER [simp]: "quiet (w\<lparr>LOGGER := l\<rparr>) = quiet w"
  by (simp add: quiet_def)












end
